theory Spec2Isabelle
  imports Complex_Main "HOL-Library.Char_ord" "HOL-Library.List_Lexorder"
begin

section \<open>Keys, values and the key namespacer\<close>

text \<open>
  Go's \<open>[]byte\<close> and \<open>string\<close> are byte sequences: a \<open>string\<close> here is a list of
  8-bit characters, compared lexicographically byte by byte, which is the key order of
  the store.
\<close>

type_synonym key = string
type_synonym val = string
type_synonym kvs = "(key \<times> val) list"
type_synonym err = string

text \<open>\<open>pkg/tikv/dao.go\<close>: \<open>TiKVWebKeyPrefix = []byte("tikv_web_")\<close> and \<open>makeKey\<close>.\<close>

definition TiKVWebKeyPrefix :: key where
  "TiKVWebKeyPrefix = ''tikv_web_''"

definition makeKey :: "key \<Rightarrow> key" where
  "makeKey k = TiKVWebKeyPrefix @ k"

text \<open>\<open>main.go\<close>: \<open>prefixedKey\<close> returns \<open>[]byte(key)\<close>, and \<open>prefixedRange\<close>.\<close>

definition prefixedKey :: "string \<Rightarrow> key" where
  "prefixedKey k = k"

definition prefixedRange :: "string \<Rightarrow> key \<times> key" where
  "prefixedRange prefix =
     (if prefix \<noteq> [] then (prefix, prefix @ [CHR 0xFF])
      else ([], [CHR 0xFF, CHR 0xFF, CHR 0xFF, CHR 0xFF]))"

section \<open>Responses\<close>

record KeyValuePair =
  Key :: string
  Value :: string

record BatchOperationResult =
  res_Key :: string
  res_Operation :: string
  res_Success :: bool
  res_Error :: string

datatype payload =
    NoData
  | KV KeyValuePair
  | Str string
  | Paginated "KeyValuePair list" int int int int
  | BatchData "BatchOperationResult list" nat nat
  | TxnData nat
  | Deleted nat string
  | Cluster string "string list"

record ApiResponse =
  Status :: nat
  Success :: bool
  Message :: string
  Data :: payload
  Error :: string

definition reply :: "nat \<Rightarrow> bool \<Rightarrow> string \<Rightarrow> payload \<Rightarrow> string \<Rightarrow> ApiResponse" where
  "reply st ok msg d e = \<lparr>Status = st, Success = ok, Message = msg, Data = d, Error = e\<rparr>"

section \<open>Client lifecycle\<close>

text \<open>
  The package-level variables. \<open>RawKVClient\<close> and \<open>TxnKVClient\<close> are the handles of
  \<open>pkg/tikv/client.go\<close> (a handle is a number, \<open>None\<close> is \<open>nil\<close>); \<open>rawKvClient\<close> and
  \<open>txnClient\<close> are the wrappers of \<open>main.go\<close> (the first an empty struct, the second
  holding its \<open>cli\<close> handle); \<open>dao_rawKvClient\<close> and \<open>dao_txnKvClient\<close> say whether the
  singletons of \<open>pkg/tikv/init.go\<close> are set. \<open>closed\<close> lists the handles on which
  \<open>Close\<close> was called and \<open>next_handle\<close> numbers the next handle the library creates.
\<close>

record globals =
  RawKVClient :: "nat option"
  TxnKVClient :: "nat option"
  rawKvClient :: bool
  txnClient :: "nat option"
  dao_rawKvClient :: bool
  dao_txnKvClient :: bool
  currentEndpoints :: "string list"
  closed :: "nat list"
  next_handle :: nat

text \<open>
  The two constructors of the client library, \<open>rawkv.NewClientWithOpts\<close> and
  \<open>txnkv.NewClient\<close>, are outside the repository: whether each connects to a given
  endpoint list is a parameter (\<open>None\<close>: connected, \<open>Some e\<close>: the error).
\<close>

record dialer =
  dial_rawkv :: "string list \<Rightarrow> err option"
  dial_txnkv :: "string list \<Rightarrow> err option"

text \<open>\<open>client.go\<close>: \<open>NewRawKvClient\<close> swaps the global handle as soon as its own open
  succeeds and closes the handle it replaced.\<close>

definition NewRawKvClient :: "dialer \<Rightarrow> string list \<Rightarrow> globals \<Rightarrow> (err + unit) \<times> globals" where
  "NewRawKvClient d endpoints g =
     (case dial_rawkv d endpoints of
        Some e \<Rightarrow> (Inl e, g)
      | None \<Rightarrow>
          (Inr (),
           g\<lparr>RawKVClient := Some (next_handle g),
             next_handle := Suc (next_handle g),
             closed := (case RawKVClient g of None \<Rightarrow> closed g | Some h \<Rightarrow> closed g @ [h])\<rparr>))"

definition NewTxnClient :: "dialer \<Rightarrow> string list \<Rightarrow> globals \<Rightarrow> (err + nat) \<times> globals" where
  "NewTxnClient d endpoints g =
     (case dial_txnkv d endpoints of
        Some e \<Rightarrow> (Inl e, g)
      | None \<Rightarrow>
          (Inr (next_handle g),
           g\<lparr>TxnKVClient := Some (next_handle g),
             next_handle := Suc (next_handle g),
             closed := (case TxnKVClient g of None \<Rightarrow> closed g | Some h \<Rightarrow> closed g @ [h])\<rparr>))"

text \<open>\<open>main.go\<close>: \<open>InitializeTiKVClient\<close>.\<close>

definition InitializeTiKVClient :: "dialer \<Rightarrow> string list \<Rightarrow> globals \<Rightarrow> err option \<times> globals" where
  "InitializeTiKVClient d endpoints g =
     (case NewRawKvClient d endpoints g of
        (Inl e, g1) \<Rightarrow> (Some e, g1)
      | (Inr _, g1) \<Rightarrow>
          (case NewTxnClient d endpoints (g1\<lparr>rawKvClient := True\<rparr>) of
             (Inl e, g2) \<Rightarrow> (Some e, g2)
           | (Inr cli, g2) \<Rightarrow> (None, g2\<lparr>txnClient := Some cli\<rparr>)))"

definition setCurrentEndpoints :: "string list \<Rightarrow> globals \<Rightarrow> globals" where
  "setCurrentEndpoints endpoints g = g\<lparr>currentEndpoints := endpoints\<rparr>"

definition getCurrentEndpoints :: "globals \<Rightarrow> string list" where
  "getCurrentEndpoints g = currentEndpoints g"

text \<open>
  \<open>main.go\<close>: \<open>handleUpdateClusterEndpoints\<close>, from the bound request on. The parser
  \<open>parseEndpoints\<close> is passed in as \<open>parse\<close>: what follows holds for every parser.
\<close>

definition handleUpdateClusterEndpoints ::
  "(string \<Rightarrow> err + string list) \<Rightarrow> dialer \<Rightarrow> string \<Rightarrow> globals \<Rightarrow> ApiResponse \<times> globals" where
  "handleUpdateClusterEndpoints parse d body g =
     (case parse body of
        Inl e \<Rightarrow> (reply 400 False ''Invalid endpoints format'' NoData e, g)
      | Inr endpoints \<Rightarrow>
          (case InitializeTiKVClient d endpoints g of
             (Some e, g1) \<Rightarrow>
               (reply 503 False ''Failed to connect to TiKV cluster with provided endpoints'' NoData e, g1)
           | (None, g1) \<Rightarrow>
               (reply 200 True ''Cluster endpoints updated successfully''
                  (Cluster ''healthy'' endpoints) [],
                setCurrentEndpoints endpoints g1)))"

definition handleGetClusterStatus :: "globals \<Rightarrow> ApiResponse" where
  "handleGetClusterStatus g =
     reply 200 True ''Get cluster status successful'' (Cluster ''healthy'' (getCurrentEndpoints g)) []"

section \<open>The key-value backend\<close>

text \<open>
  The TiKV cluster and its client library are outside the repository. They are modelled
  by the contract the handlers rely on: a direct store and a transactional store (the
  clients are opened with API version 2, which keeps the two keyspaces apart), each a
  list of pairs in ascending key order; a direct read of an absent key gives the empty
  value and no error (the comment on \<open>RawKv.Get\<close> in \<open>dao.go\<close>), a transactional read
  of an absent key gives an error; a scan gives the first \<open>limit\<close> pairs of the range
  \<open>[start, end)\<close> in ascending order; a transaction buffers its writes and applies them
  at commit. Every call that can fail takes the next entry of \<open>plan\<close>: \<open>True\<close> makes the
  call fail with no effect on the stores, so that a statement for every plan is a
  statement for every pattern of backend failures. \<open>calls\<close> records each call with
  its arguments as they arrive at the client, and whether it succeeded. The limits that
  the library sets on one request (the length of a scan, the size of a value) are not
  part of the contract: a request beyond them is one of the calls that fail.
\<close>

datatype call =
    RawPut key val
  | RawGet key
  | RawDelete key
  | RawScan key key int
  | TxnBegin nat
  | TxnGet nat key
  | TxnSet nat key val
  | TxnDelete nat key
  | TxnIter nat key key
  | TxnIterNext nat
  | TxnCommit nat
  | TxnRollback nat

record backend =
  raw :: kvs
  txnkv :: kvs
  plan :: "bool list"
  next_tid :: nat
  snap :: "nat \<Rightarrow> kvs"
  membuf :: "nat \<Rightarrow> (key \<times> val option) list"
  calls :: "(call \<times> bool) list"

definition backend_err :: err where
  "backend_err = ''tikv: request failed''"

definition not_exist :: err where
  "not_exist = ''not exist''"

definition fault :: "backend \<Rightarrow> bool" where
  "fault b = (case plan b of [] \<Rightarrow> False | f # _ \<Rightarrow> f)"

definition consume :: "backend \<Rightarrow> backend" where
  "consume b = b\<lparr>plan := tl (plan b)\<rparr>"

definition logged :: "call \<Rightarrow> bool \<Rightarrow> backend \<Rightarrow> backend" where
  "logged c ok b = b\<lparr>calls := calls b @ [(c, ok)]\<rparr>"

text \<open>The key a call carries, as it arrives at the client.\<close>

fun wire_key :: "call \<Rightarrow> key option" where
  "wire_key (RawPut k v) = Some k"
| "wire_key (RawGet k) = Some k"
| "wire_key (RawDelete k) = Some k"
| "wire_key (TxnGet t k) = Some k"
| "wire_key (TxnSet t k v) = Some k"
| "wire_key (TxnDelete t k) = Some k"
| "wire_key c = None"

definition kv_put :: "key \<Rightarrow> val \<Rightarrow> kvs \<Rightarrow> kvs" where
  "kv_put k v xs = filter (\<lambda>p. fst p < k) xs @ (k, v) # filter (\<lambda>p. k < fst p) xs"

definition kv_del :: "key \<Rightarrow> kvs \<Rightarrow> kvs" where
  "kv_del k xs = filter (\<lambda>p. fst p \<noteq> k) xs"

definition in_range :: "key \<Rightarrow> key \<Rightarrow> key \<times> val \<Rightarrow> bool" where
  "in_range start end p = (start \<le> fst p \<and> fst p < end)"

subsection \<open>The direct client\<close>

definition raw_Put :: "key \<Rightarrow> val \<Rightarrow> backend \<Rightarrow> err option \<times> backend" where
  "raw_Put k v b =
     (if fault b then (Some backend_err, logged (RawPut k v) False (consume b))
      else (None, (logged (RawPut k v) True (consume b))\<lparr>raw := kv_put k v (raw b)\<rparr>))"

definition raw_Get :: "key \<Rightarrow> backend \<Rightarrow> (err + val) \<times> backend" where
  "raw_Get k b =
     (if fault b then (Inl backend_err, logged (RawGet k) False (consume b))
      else (Inr (case map_of (raw b) k of None \<Rightarrow> [] | Some v \<Rightarrow> v),
            logged (RawGet k) True (consume b)))"

definition raw_Delete :: "key \<Rightarrow> backend \<Rightarrow> err option \<times> backend" where
  "raw_Delete k b =
     (if fault b then (Some backend_err, logged (RawDelete k) False (consume b))
      else (None, (logged (RawDelete k) True (consume b))\<lparr>raw := kv_del k (raw b)\<rparr>))"

definition raw_Scan :: "key \<Rightarrow> key \<Rightarrow> int \<Rightarrow> backend \<Rightarrow> (err + kvs) \<times> backend" where
  "raw_Scan start end limit b =
     (if fault b then (Inl backend_err, logged (RawScan start end limit) False (consume b))
      else (Inr (take (nat limit) (filter (in_range start end) (raw b))),
            logged (RawScan start end limit) True (consume b)))"

subsection \<open>The transactional client\<close>

text \<open>A transaction is known by its number; its snapshot and its buffer of staged
  writes (the newest first, \<open>None\<close> a deletion) are kept in the backend state.\<close>

definition stage :: "key \<times> val option \<Rightarrow> kvs \<Rightarrow> kvs" where
  "stage w xs = (case snd w of Some v \<Rightarrow> kv_put (fst w) v xs | None \<Rightarrow> kv_del (fst w) xs)"

definition view :: "backend \<Rightarrow> nat \<Rightarrow> kvs" where
  "view b t = foldr stage (membuf b t) (snap b t)"

definition txn_Begin :: "backend \<Rightarrow> (err + nat) \<times> backend" where
  "txn_Begin b =
     (if fault b then (Inl backend_err, logged (TxnBegin (next_tid b)) False (consume b))
      else (Inr (next_tid b),
            (logged (TxnBegin (next_tid b)) True (consume b))
              \<lparr>next_tid := Suc (next_tid b),
               snap := (snap b)(next_tid b := txnkv b),
               membuf := (membuf b)(next_tid b := [])\<rparr>))"

definition txn_Get :: "nat \<Rightarrow> key \<Rightarrow> backend \<Rightarrow> (err + val) \<times> backend" where
  "txn_Get t k b =
     (if fault b then (Inl backend_err, logged (TxnGet t k) False (consume b))
      else (case map_of (view b t) k of
              None \<Rightarrow> (Inl not_exist, logged (TxnGet t k) False (consume b))
            | Some v \<Rightarrow> (Inr v, logged (TxnGet t k) True (consume b))))"

definition txn_Set :: "nat \<Rightarrow> key \<Rightarrow> val \<Rightarrow> backend \<Rightarrow> err option \<times> backend" where
  "txn_Set t k v b =
     (if fault b then (Some backend_err, logged (TxnSet t k v) False (consume b))
      else (None, (logged (TxnSet t k v) True (consume b))
                    \<lparr>membuf := (membuf b)(t := (k, Some v) # membuf b t)\<rparr>))"

definition txn_Delete :: "nat \<Rightarrow> key \<Rightarrow> backend \<Rightarrow> err option \<times> backend" where
  "txn_Delete t k b =
     (if fault b then (Some backend_err, logged (TxnDelete t k) False (consume b))
      else (None, (logged (TxnDelete t k) True (consume b))
                    \<lparr>membuf := (membuf b)(t := (k, None) # membuf b t)\<rparr>))"

text \<open>An iterator is the list of the pairs it has not passed yet: \<open>Valid\<close> is
  non-emptiness, \<open>Key\<close> and \<open>Value\<close> read the head, \<open>Next\<close> drops it or fails.\<close>

definition txn_Iter :: "nat \<Rightarrow> key \<Rightarrow> key \<Rightarrow> backend \<Rightarrow> (err + kvs) \<times> backend" where
  "txn_Iter t start end b =
     (if fault b then (Inl backend_err, logged (TxnIter t start end) False (consume b))
      else (Inr (filter (in_range start end) (view b t)),
            logged (TxnIter t start end) True (consume b)))"

definition iter_Next :: "nat \<Rightarrow> backend \<Rightarrow> err option \<times> backend" where
  "iter_Next t b =
     (if fault b then (Some backend_err, logged (TxnIterNext t) False (consume b))
      else (None, logged (TxnIterNext t) True (consume b)))"

definition txn_Commit :: "nat \<Rightarrow> backend \<Rightarrow> err option \<times> backend" where
  "txn_Commit t b =
     (if fault b then (Some backend_err, logged (TxnCommit t) False (consume b))
      else (None, (logged (TxnCommit t) True (consume b))
                    \<lparr>txnkv := foldr stage (membuf b t) (txnkv b)\<rparr>))"

text \<open>The handlers ignore what \<open>Rollback\<close> returns; it takes no entry of the plan.\<close>

definition txn_Rollback :: "nat \<Rightarrow> backend \<Rightarrow> backend" where
  "txn_Rollback t b = logged (TxnRollback t) True b"

subsection \<open>The DAO layer of \<open>pkg/tikv/dao.go\<close>\<close>

definition RawKv_Get :: "key \<Rightarrow> backend \<Rightarrow> (err + val) \<times> backend" where
  "RawKv_Get k b = raw_Get (makeKey k) b"

definition RawKv_Put :: "key \<Rightarrow> val \<Rightarrow> backend \<Rightarrow> err option \<times> backend" where
  "RawKv_Put k v b = raw_Put (makeKey k) v b"

definition RawKv_Delete :: "key \<Rightarrow> backend \<Rightarrow> err option \<times> backend" where
  "RawKv_Delete k b = raw_Delete (makeKey k) b"

definition RawKv_Scan :: "key \<Rightarrow> key \<Rightarrow> int \<Rightarrow> backend \<Rightarrow> (err + kvs) \<times> backend" where
  "RawKv_Scan startKey endKey limit b = raw_Scan (makeKey startKey) (makeKey endKey) limit b"

definition TxnKv_Begin :: "backend \<Rightarrow> (err + nat) \<times> backend" where
  "TxnKv_Begin b = txn_Begin b"

definition TxnKv_Commit :: "nat \<Rightarrow> backend \<Rightarrow> err option \<times> backend" where
  "TxnKv_Commit t b = txn_Commit t b"

definition TxnKv_Rollback :: "nat \<Rightarrow> backend \<Rightarrow> backend" where
  "TxnKv_Rollback t b = txn_Rollback t b"

definition TxnKv_Get :: "nat \<Rightarrow> key \<Rightarrow> backend \<Rightarrow> (err + val) \<times> backend" where
  "TxnKv_Get t k b = txn_Get t (makeKey k) b"

definition TxnKv_Set :: "nat \<Rightarrow> key \<Rightarrow> val \<Rightarrow> backend \<Rightarrow> err option \<times> backend" where
  "TxnKv_Set t k v b = txn_Set t (makeKey k) v b"

definition TxnKv_Delete :: "nat \<Rightarrow> key \<Rightarrow> backend \<Rightarrow> err option \<times> backend" where
  "TxnKv_Delete t k b = txn_Delete t (makeKey k) b"

section \<open>Batch operations\<close>

record Operation =
  op_Type :: string
  op_Key :: string
  op_Value :: string

text \<open>Both batch handlers derive the kind of an operation from its value.\<close>

definition operationType :: "Operation \<Rightarrow> string" where
  "operationType op = (if op_Value op = [] then ''delete'' else ''put'')"

definition failed :: "Operation \<Rightarrow> string \<Rightarrow> BatchOperationResult" where
  "failed op e =
     \<lparr>res_Key = op_Key op, res_Operation = operationType op, res_Success = False, res_Error = e\<rparr>"

definition succeeded :: "Operation \<Rightarrow> BatchOperationResult" where
  "succeeded op =
     \<lparr>res_Key = op_Key op, res_Operation = operationType op, res_Success = True, res_Error = []\<rparr>"

text \<open>
  The body of the \<open>rawkv\<close> branch once the client is known to be there, the same in
  \<open>handleBatchOperations\<close> (\<open>main.go\<close>) and \<open>BatchOperations\<close> (\<open>handlers.go\<close>) but for
  the key that reaches the client: \<open>wire\<close> is \<open>prefixedKey\<close> in the first and the DAO's
  \<open>makeKey\<close> in the second.
\<close>

definition rawkv_operation ::
  "(string \<Rightarrow> key) \<Rightarrow> Operation \<Rightarrow> backend \<Rightarrow> BatchOperationResult \<times> backend" where
  "rawkv_operation wire op b =
     (if operationType op = ''put'' then
        (case raw_Put (wire (op_Key op)) (op_Value op) b of
           (Some e, b1) \<Rightarrow> (failed op e, b1)
         | (None, b1) \<Rightarrow> (succeeded op, b1))
      else
        (case raw_Get (wire (op_Key op)) b of
           (Inl e, b1) \<Rightarrow> (failed op ''Key not found'', b1)
         | (Inr existingValue, b1) \<Rightarrow>
             (if length existingValue = 0 then (failed op ''Key not found'', b1)
              else
                (case raw_Delete (wire (op_Key op)) b1 of
                   (Some e, b2) \<Rightarrow> (failed op e, b2)
                 | (None, b2) \<Rightarrow> (succeeded op, b2)))))"

text \<open>The body of the \<open>txn\<close> branch, likewise, from \<open>Begin\<close> on.\<close>

definition txn_operation ::
  "(string \<Rightarrow> key) \<Rightarrow> Operation \<Rightarrow> backend \<Rightarrow> BatchOperationResult \<times> backend" where
  "txn_operation wire op b =
     (case txn_Begin b of
        (Inl e, b1) \<Rightarrow> (failed op (''Failed to begin transaction: '' @ e), b1)
      | (Inr t, b1) \<Rightarrow>
          (if operationType op = ''put'' then
             (case txn_Set t (wire (op_Key op)) (op_Value op) b1 of
                (Some e, b2) \<Rightarrow> (failed op e, txn_Rollback t b2)
              | (None, b2) \<Rightarrow>
                  (case txn_Commit t b2 of
                     (Some e, b3) \<Rightarrow> (failed op (''Failed to commit transaction: '' @ e), b3)
                   | (None, b3) \<Rightarrow> (succeeded op, b3)))
           else
             (case txn_Get t (wire (op_Key op)) b1 of
                (Inl e, b2) \<Rightarrow> (failed op ''Key not found'', txn_Rollback t b2)
              | (Inr existingValue, b2) \<Rightarrow>
                  (if length existingValue = 0 then (failed op ''Key not found'', txn_Rollback t b2)
                   else
                     (case txn_Delete t (wire (op_Key op)) b2 of
                        (Some e, b3) \<Rightarrow> (failed op e, txn_Rollback t b3)
                      | (None, b3) \<Rightarrow>
                          (case txn_Commit t b3 of
                             (Some e, b4) \<Rightarrow>
                               (failed op (''Failed to commit transaction: '' @ e), b4)
                           | (None, b4) \<Rightarrow> (succeeded op, b4)))))))"

definition invalid_type :: string where
  "invalid_type = ''Invalid operation type. Must be '' @ [CHR 0x27] @ ''rawkv'' @ [CHR 0x27]
                    @ '' or '' @ [CHR 0x27] @ ''txn'' @ [CHR 0x27]"

text \<open>\<open>main.go\<close>, \<open>handleBatchOperations\<close>: the body of the loop over the operations.\<close>

definition handleBatchOperation ::
  "globals \<Rightarrow> Operation \<Rightarrow> backend \<Rightarrow> BatchOperationResult \<times> backend" where
  "handleBatchOperation g op b =
     (if op_Type op = ''rawkv'' then
        (if \<not> rawKvClient g then (failed op ''TiKV RawKV client not initialized'', b)
         else if RawKVClient g = None then (failed op ''RawKV client is nil'', b)
         else rawkv_operation prefixedKey op b)
      else if op_Type op = ''txn'' then
        (if txnClient g = None then (failed op ''TiKV TxnKV client not initialized'', b)
         else if TxnKVClient g = None then (failed op ''TxnKV client is nil'', b)
         else txn_operation prefixedKey op b)
      else (failed op invalid_type, b))"

text \<open>\<open>handlers.go\<close>, \<open>BatchOperations\<close>: the body of the loop, through the DAO layer.\<close>

definition BatchOperation ::
  "globals \<Rightarrow> Operation \<Rightarrow> backend \<Rightarrow> BatchOperationResult \<times> backend" where
  "BatchOperation g op b =
     (if op_Type op = ''rawkv'' then
        (if \<not> dao_rawKvClient g then (failed op ''TiKV RawKV client not initialized'', b)
         else rawkv_operation makeKey op b)
      else if op_Type op = ''txn'' then
        (if \<not> dao_txnKvClient g then (failed op ''TiKV TxnKV client not initialized'', b)
         else txn_operation makeKey op b)
      else (failed op invalid_type, b))"

text \<open>The loop: one result appended per operation, the backend threaded through.\<close>

fun run_operations ::
  "(Operation \<Rightarrow> backend \<Rightarrow> BatchOperationResult \<times> backend) \<Rightarrow> Operation list \<Rightarrow> backend
     \<Rightarrow> BatchOperationResult list \<times> backend" where
  "run_operations body [] b = ([], b)"
| "run_operations body (op # ops) b =
     (case body op b of
        (r, b1) \<Rightarrow> (case run_operations body ops b1 of (rs, b2) \<Rightarrow> (r # rs, b2)))"

text \<open>The counting loop over the results.\<close>

fun count_results :: "BatchOperationResult list \<Rightarrow> nat \<times> nat \<Rightarrow> nat \<times> nat" where
  "count_results [] (successCount, failureCount) = (successCount, failureCount)"
| "count_results (r # rs) (successCount, failureCount) =
     (if res_Success r then count_results rs (successCount + 1, failureCount)
      else count_results rs (successCount, failureCount + 1))"

definition batch_response :: "BatchOperationResult list \<Rightarrow> ApiResponse" where
  "batch_response results =
     (case count_results results (0, 0) of
        (successCount, failureCount) \<Rightarrow>
          reply 200 True ''Batch operations completed successfully''
            (BatchData results successCount failureCount) [])"

definition handleBatchOperations :: "globals \<Rightarrow> Operation list \<Rightarrow> backend \<Rightarrow> ApiResponse \<times> backend" where
  "handleBatchOperations g ops b =
     (case run_operations (handleBatchOperation g) ops b of
        (results, b1) \<Rightarrow> (batch_response results, b1))"

definition BatchOperations :: "globals \<Rightarrow> Operation list \<Rightarrow> backend \<Rightarrow> ApiResponse \<times> backend" where
  "BatchOperations g ops b =
     (case run_operations (BatchOperation g) ops b of
        (results, b1) \<Rightarrow> (batch_response results, b1))"


section \<open>Single-key handlers\<close>

text \<open>\<open>main.go\<close>: \<open>handleGetKV\<close> answers from the request alone.\<close>

definition handleGetKV :: "string \<Rightarrow> globals \<Rightarrow> backend \<Rightarrow> ApiResponse \<times> backend" where
  "handleGetKV k g b =
     (reply 200 True ''Get key successful'' (KV \<lparr>Key = k, Value = []\<rparr>) [], b)"

text \<open>
  \<open>main.go\<close>: \<open>handleCreateKV\<close>, from the bound request on (the binding refuses an
  empty key or value). In the \<open>txn\<close> branch \<open>txn, err := txnClient.Begin()\<close> declares a new
  \<open>err\<close> for that block, so the \<open>err\<close> tested after it is never set there. The \<open>rawkv\<close>
  branch tests \<open>rawKvClient\<close> and calls \<open>tikv.RawKVClient\<close>, which \<open>InitializeTiKVClient\<close> sets
  together; the handler is modelled for the states in which they agree.
\<close>

definition handleCreateKV :: "string \<Rightarrow> string \<Rightarrow> string \<Rightarrow> globals \<Rightarrow> backend \<Rightarrow> ApiResponse \<times> backend" where
  "handleCreateKV k v ty g b =
     (if k = [] \<or> v = [] then (reply 400 False ''Invalid request parameters'' NoData ''required'', b)
      else if ty = ''rawkv'' \<and> rawKvClient g then
        (case raw_Put (prefixedKey k) v b of
           (Some e, b1) \<Rightarrow> (reply 500 False (''Failed to create key: '' @ e) NoData e, b1)
         | (None, b1) \<Rightarrow> (reply 200 True ''Create key successful'' NoData [], b1))
      else if ty = ''txn'' \<and> txnClient g \<noteq> None then
        (case txn_Begin b of
           (Inl e, b1) \<Rightarrow> (reply 200 True ''Create key successful'' NoData [], b1)
         | (Inr t, b1) \<Rightarrow>
             (case txn_Set t (prefixedKey k) v b1 of
                (Some e, b2) \<Rightarrow> (reply 200 True ''Create key successful'' NoData [], txn_Rollback t b2)
              | (None, b2) \<Rightarrow>
                  (reply 200 True ''Create key successful'' NoData [], snd (txn_Commit t b2))))
      else (reply 400 False ''Invalid type or client not available'' NoData [], b))"

text \<open>\<open>handlers.go\<close>: \<open>GetKV\<close> and \<open>CreateKV\<close>, through the DAO layer; \<open>type\<close> defaults
  to \<open>rawkv\<close> and every other value takes the transactional branch.\<close>

definition GetKV :: "string \<Rightarrow> string \<Rightarrow> globals \<Rightarrow> backend \<Rightarrow> ApiResponse \<times> backend" where
  "GetKV k typeParam g b =
     (if k = [] then (reply 400 False ''Key is required'' NoData [], b)
      else if typeParam = ''rawkv'' then
        (if \<not> dao_rawKvClient g then (reply 503 False ''TiKV RawKV client not initialized'' NoData [], b)
         else
           (case RawKv_Get k b of
              (Inl e, b1) \<Rightarrow> (reply 500 False ''Failed to get key from RawKV'' NoData e, b1)
            | (Inr result, b1) \<Rightarrow>
                (if length result = 0 then (reply 404 False ''Key not found'' NoData [], b1)
                 else (reply 200 True ''Key retrieved successfully'' (Str result) [], b1))))
      else
        (if \<not> dao_txnKvClient g then (reply 503 False ''TiKV TxnKV client not initialized'' NoData [], b)
         else
           (case TxnKv_Begin b of
              (Inl e, b1) \<Rightarrow> (reply 500 False ''Failed to begin transaction'' NoData e, b1)
            | (Inr t, b1) \<Rightarrow>
                (case TxnKv_Get t k b1 of
                   (Inl e, b2) \<Rightarrow>
                     (reply 500 False ''Failed to get key from transaction'' NoData e, TxnKv_Rollback t b2)
                 | (Inr result, b2) \<Rightarrow>
                     (case TxnKv_Commit t b2 of
                        (Some e, b3) \<Rightarrow> (reply 500 False ''Failed to commit transaction'' NoData e, b3)
                      | (None, b3) \<Rightarrow>
                          (if length result = 0 then (reply 404 False ''Key not found'' NoData [], b3)
                           else (reply 200 True ''Key retrieved successfully'' (Str result) [], b3)))))))"

definition CreateKV :: "string \<Rightarrow> string \<Rightarrow> string \<Rightarrow> globals \<Rightarrow> backend \<Rightarrow> ApiResponse \<times> backend" where
  "CreateKV k v ty g b =
     (if k = [] \<or> v = [] \<or> (ty \<noteq> ''rawkv'' \<and> ty \<noteq> ''txn'') then
        (reply 400 False ''Invalid request body'' NoData ''binding'', b)
      else if ty = ''rawkv'' then
        (if \<not> dao_rawKvClient g then (reply 503 False ''TiKV RawKV client not initialized'' NoData [], b)
         else
           (case RawKv_Get k b of
              (Inr existingValue, b1) \<Rightarrow>
                (if length existingValue > 0 then (reply 409 False ''Key already exists'' NoData [], b1)
                 else
                   (case RawKv_Put k v b1 of
                      (Some e, b2) \<Rightarrow> (reply 500 False ''Failed to put key in RawKV'' NoData e, b2)
                    | (None, b2) \<Rightarrow> (reply 201 True ''Key created successfully'' NoData [], b2)))
            | (Inl e0, b1) \<Rightarrow>
                (case RawKv_Put k v b1 of
                   (Some e, b2) \<Rightarrow> (reply 500 False ''Failed to put key in RawKV'' NoData e, b2)
                 | (None, b2) \<Rightarrow> (reply 201 True ''Key created successfully'' NoData [], b2))))
      else
        (if \<not> dao_txnKvClient g then (reply 503 False ''TiKV TxnKV client not initialized'' NoData [], b)
         else
           (case TxnKv_Begin b of
              (Inl e, b1) \<Rightarrow> (reply 500 False ''Failed to begin transaction'' NoData e, b1)
            | (Inr t, b1) \<Rightarrow>
                (case TxnKv_Get t k b1 of
                   (r, b2) \<Rightarrow>
                     (if (case r of Inr existingValue \<Rightarrow> length existingValue > 0 | Inl e0 \<Rightarrow> False)
                      then (reply 409 False ''Key already exists'' NoData [], TxnKv_Rollback t b2)
                      else
                        (case TxnKv_Set t k v b2 of
                           (Some e, b3) \<Rightarrow>
                             (reply 500 False ''Failed to set key in transaction'' NoData e,
                              TxnKv_Rollback t b3)
                         | (None, b3) \<Rightarrow>
                             (case TxnKv_Commit t b3 of
                                (Some e, b4) \<Rightarrow>
                                  (reply 500 False ''Failed to commit transaction'' NoData e, b4)
                              | (None, b4) \<Rightarrow>
                                  (reply 201 True ''Key created successfully'' NoData [], b4))))))))"

section \<open>Atomic transactions\<close>

record AtomicOperation =
  aop_Type :: string
  aop_Key :: string
  aop_Value :: string

text \<open>\<open>main.go\<close>: \<open>handleAtomicTransaction\<close> never reads the request.\<close>

definition handleAtomicTransaction ::
  "AtomicOperation list \<Rightarrow> globals \<Rightarrow> backend \<Rightarrow> ApiResponse \<times> backend" where
  "handleAtomicTransaction ops g b = (reply 200 True ''Atomic transaction successful'' NoData [], b)"

text \<open>\<open>handlers.go\<close>: \<open>AtomicTransaction\<close>. The loop stages every operation on the one
  transaction and leaves with a response at the first that cannot be staged.\<close>

fun stage_operations :: "nat \<Rightarrow> AtomicOperation list \<Rightarrow> backend \<Rightarrow> ApiResponse option \<times> backend" where
  "stage_operations t [] b = (None, b)"
| "stage_operations t (op # ops) b =
     (if aop_Type op = ''put'' then
        (if aop_Value op = [] then
           (Some (reply 400 False ''Value is required for put operation'' NoData []),
            TxnKv_Rollback t b)
         else
           (case TxnKv_Set t (aop_Key op) (aop_Value op) b of
              (Some e, b1) \<Rightarrow>
                (Some (reply 500 False (''Failed to set key '' @ aop_Key op @ '' in transaction'') NoData e),
                 TxnKv_Rollback t b1)
            | (None, b1) \<Rightarrow> stage_operations t ops b1))
      else if aop_Type op = ''delete'' then
        (case TxnKv_Delete t (aop_Key op) b of
           (Some e, b1) \<Rightarrow>
             (Some (reply 500 False (''Failed to delete key '' @ aop_Key op @ '' in transaction'') NoData e),
              TxnKv_Rollback t b1)
         | (None, b1) \<Rightarrow> stage_operations t ops b1)
      else stage_operations t ops b)"

definition AtomicTransaction ::
  "AtomicOperation list \<Rightarrow> globals \<Rightarrow> backend \<Rightarrow> ApiResponse \<times> backend" where
  "AtomicTransaction ops g b =
     (if \<not> dao_txnKvClient g then (reply 503 False ''TiKV TxnKV client not initialized'' NoData [], b)
      else
        (case TxnKv_Begin b of
           (Inl e, b1) \<Rightarrow> (reply 500 False ''Failed to begin atomic transaction'' NoData e, b1)
         | (Inr t, b1) \<Rightarrow>
             (case stage_operations t ops b1 of
                (Some r, b2) \<Rightarrow> (r, b2)
              | (None, b2) \<Rightarrow>
                  (case TxnKv_Commit t b2 of
                     (Some e, b3) \<Rightarrow>
                       (reply 500 False ''Failed to commit atomic transaction'' NoData e, b3)
                   | (None, b3) \<Rightarrow>
                       (reply 200 True ''Atomic transaction completed successfully''
                          (TxnData (length ops)) [], b3)))))"

text \<open>The writes a request asks for, in submission order and as they reach the
  transaction, and the puts that the handler refuses.\<close>

definition writes :: "AtomicOperation list \<Rightarrow> (key \<times> val option) list" where
  "writes ops =
     map (\<lambda>op. (makeKey (aop_Key op), if aop_Type op = ''put'' then Some (aop_Value op) else None))
       (filter (\<lambda>op. aop_Type op = ''put'' \<or> aop_Type op = ''delete'') ops)"

definition empty_put :: "AtomicOperation \<Rightarrow> bool" where
  "empty_put op = (aop_Type op = ''put'' \<and> aop_Value op = [])"

section \<open>Scans and pagination\<close>

text \<open>Go's \<open>int\<close> is 64 bits wide here and wraps silently; its division truncates
  towards zero.\<close>

definition go_int :: "int \<Rightarrow> int" where
  "go_int x = (x + 2 ^ 63) mod 2 ^ 64 - 2 ^ 63"

definition go_div :: "int \<Rightarrow> int \<Rightarrow> int" where
  "go_div a b = (if (a < 0) = (b < 0) then \<bar>a\<bar> div \<bar>b\<bar> else - (\<bar>a\<bar> div \<bar>b\<bar>))"

datatype failure = Failed err | Panicked

definition pair_of :: "key \<times> val \<Rightarrow> KeyValuePair" where
  "pair_of p = \<lparr>Key = fst p, Value = snd p\<rparr>"

text \<open>The loop \<open>for i := start; i < end; i++\<close> of \<open>scanRawKVs\<close>, \<open>n\<close> rounds from index
  \<open>i\<close>: reading \<open>keys[i]\<close> outside the slice panics.\<close>

fun index_loop :: "kvs \<Rightarrow> int \<Rightarrow> nat \<Rightarrow> KeyValuePair list option" where
  "index_loop found i 0 = Some []"
| "index_loop found i (Suc n) =
     (if i < 0 \<or> int (length found) \<le> i then None
      else map_option ((#) (pair_of (found ! nat i))) (index_loop found (i + 1) n))"

text \<open>\<open>main.go\<close>: \<open>scanRawKVs\<close>. The client's \<open>Scan\<close> returns the keys and the values as
  two slices of one length; they are one list of pairs here.\<close>

definition scanRawKVs ::
  "string \<Rightarrow> int \<Rightarrow> int \<Rightarrow> globals \<Rightarrow> backend \<Rightarrow> (failure + KeyValuePair list \<times> int) \<times> backend" where
  "scanRawKVs prefix page limit g b =
     (if \<not> rawKvClient g \<or> RawKVClient g = None then (Inr ([], 0), b)
      else
        (let offset = go_int (go_int (page - 1) * limit) in
         case raw_Scan (fst (prefixedRange prefix)) (snd (prefixedRange prefix))
                (go_int (offset + limit)) b of
           (Inl e, b1) \<Rightarrow> (Inl (Failed e), b1)
         | (Inr found, b1) \<Rightarrow>
             (let start = offset; end0 = go_int (offset + limit) in
              if start > int (length found) then (Inr ([], int (length found)), b1)
              else
                (let end1 = (if end0 > int (length found) then int (length found) else end0) in
                 case index_loop found start (nat (end1 - start)) of
                   None \<Rightarrow> (Inl Panicked, b1)
                 | Some kvPairs \<Rightarrow> (Inr (kvPairs, int (length found)), b1)))))"

text \<open>\<open>main.go\<close>, \<open>scanTxnKVs\<close>: the walk over the iterator. \<open>items\<close> is what the iterator
  has not passed yet; a failing \<open>Next\<close> leaves the loop like the end of the range does.\<close>

fun walk ::
  "nat \<Rightarrow> int \<Rightarrow> int \<Rightarrow> kvs \<Rightarrow> KeyValuePair list \<Rightarrow> int \<Rightarrow> int \<Rightarrow> backend
     \<Rightarrow> (KeyValuePair list \<times> int) \<times> backend" where
  "walk t skipCount limit [] kvPairs currentCount totalCount b = ((kvPairs, totalCount), b)"
| "walk t skipCount limit (item # items) kvPairs currentCount totalCount b =
     (let totalCount1 = totalCount + 1;
          taken = (currentCount \<ge> skipCount \<and> int (length kvPairs) < limit);
          kvPairs1 = (if taken then kvPairs @ [pair_of item] else kvPairs);
          currentCount1 = (if taken \<or> currentCount < skipCount then currentCount + 1 else currentCount)
      in if int (length kvPairs1) \<ge> limit then ((kvPairs1, totalCount1), b)
         else
           (case iter_Next t b of
              (Some e, b1) \<Rightarrow> ((kvPairs1, totalCount1), b1)
            | (None, b1) \<Rightarrow> walk t skipCount limit items kvPairs1 currentCount1 totalCount1 b1))"

text \<open>\<open>main.go\<close>: \<open>scanTxnKVs\<close>. The deferred \<open>Rollback\<close> runs on every way out once
  \<open>Begin\<close> has succeeded.\<close>

definition scanTxnKVs ::
  "string \<Rightarrow> int \<Rightarrow> int \<Rightarrow> globals \<Rightarrow> backend \<Rightarrow> (failure + KeyValuePair list \<times> int) \<times> backend" where
  "scanTxnKVs prefix page limit g b =
     (if txnClient g = None then (Inl (Failed ''transaction client not initialized''), b)
      else
        (case txn_Begin b of
           (Inl e, b1) \<Rightarrow> (Inl (Failed e), b1)
         | (Inr t, b1) \<Rightarrow>
             (case txn_Iter t (fst (prefixedRange prefix)) (snd (prefixedRange prefix)) b1 of
                (Inl e, b2) \<Rightarrow> (Inl (Failed e), txn_Rollback t b2)
              | (Inr items, b2) \<Rightarrow>
                  (case walk t (go_int (go_int (page - 1) * limit)) limit items [] 0 0 b2 of
                     (r, b3) \<Rightarrow> (Inr r, txn_Rollback t b3)))))"

text \<open>
  \<open>main.go\<close>: \<open>handleScanKVs\<close>. \<open>p\<close> and \<open>l\<close> are the \<open>page\<close> and \<open>limit\<close> parameters as
  \<open>strconv.Atoi\<close> read them (\<open>None\<close>: absent or not a number). A panic is answered by the
  router's recovery with status 500 and no body.
\<close>

definition handleScanKVs ::
  "string \<Rightarrow> int option \<Rightarrow> int option \<Rightarrow> string \<Rightarrow> globals \<Rightarrow> backend \<Rightarrow> ApiResponse \<times> backend" where
  "handleScanKVs prefix p l kvType g b =
     (let page = (case p of Some parsed \<Rightarrow> if parsed > 0 then parsed else 1 | None \<Rightarrow> 1);
          limit = (case l of Some parsed \<Rightarrow> if parsed > 0 then parsed else 100 | None \<Rightarrow> 100)
      in case (if kvType = ''rawkv'' \<and> rawKvClient g then scanRawKVs prefix page limit g b
               else if kvType = ''txn'' \<and> txnClient g \<noteq> None then scanTxnKVs prefix page limit g b
               else (Inr ([], 0), b)) of
           (Inl (Failed e), b1) \<Rightarrow> (reply 500 False (''Failed to scan keys: '' @ e) NoData e, b1)
         | (Inl Panicked, b1) \<Rightarrow> (reply 500 False [] NoData [], b1)
         | (Inr (kvPairs, total'), b1) \<Rightarrow>
             (reply 200 True ''Scan keys successful''
                (Paginated kvPairs total' page limit (go_div (go_int (total' + limit - 1)) limit)) [],
              b1))"

text \<open>
  \<open>handlers.go\<close>: \<open>ScanKVs\<close>, from the bound query on (\<open>page\<close> at least 1, \<open>limit\<close> from 1
  to 100, \<open>type\<close> one of \<open>rawkv\<close> and \<open>txn\<close>). The \<open>rawkv\<close> branch returns every key of
  the first scan that is longer than the prefix, the prefix cut off, and takes the total
  from a second scan; the \<open>txn\<close> branch begins a transaction and commits it.
\<close>

definition strip_prefix :: "kvs \<Rightarrow> KeyValuePair list" where
  "strip_prefix found =
     map (\<lambda>p. \<lparr>Key = drop (length TiKVWebKeyPrefix) (fst p), Value = snd p\<rparr>)
       (filter (\<lambda>p. length (fst p) > length TiKVWebKeyPrefix) found)"


text \<open>The calls that commit a transaction.\<close>

fun is_commit :: "call \<Rightarrow> bool" where
  "is_commit (TxnCommit t) = True"
| "is_commit c = False"

fun is_begin :: "call \<Rightarrow> bool" where
  "is_begin (TxnBegin t) = True"
| "is_begin c = False"

fun is_rollback :: "call \<Rightarrow> bool" where
  "is_rollback (TxnRollback t) = True"
| "is_rollback c = False"

section \<open>Deleting everything\<close>

text \<open>\<open>main.go\<close>, \<open>handleDeleteAllKVs\<close>, the \<open>rawkv\<close> case: the inner loop deletes the
  keys of one batch and counts them; the outer loop scans from the cursor, stops at an
  empty batch, and moves the cursor behind the last key of the batch.\<close>

fun delete_keys :: "key list \<Rightarrow> nat \<Rightarrow> backend \<Rightarrow> (err + nat) \<times> backend" where
  "delete_keys [] deletedCount b = (Inr deletedCount, b)"
| "delete_keys (k # ks) deletedCount b =
     (case raw_Delete k b of
        (Some e, b1) \<Rightarrow> (Inl e, b1)
      | (None, b1) \<Rightarrow> delete_keys ks (deletedCount + 1) b1)"

lemma raw_Scan_found:
  "raw_Scan s e l b = (Inr found, b1) \<Longrightarrow>
     found = take (nat l) (filter (in_range s e) (raw b)) \<and> raw b1 = raw b \<and> plan b1 = tl (plan b) \<and> \<not> fault b"
  by (auto simp: raw_Scan_def logged_def consume_def split: if_splits)

lemma raw_Delete_ok:
  "raw_Delete k b = (None, b1) \<Longrightarrow> raw b1 = kv_del k (raw b) \<and> plan b1 = tl (plan b) \<and> \<not> fault b"
  by (auto simp: raw_Delete_def logged_def consume_def split: if_splits)

lemma delete_keys_ok:
  "delete_keys ks n b = (Inr m, b1) \<Longrightarrow>
     raw b1 = filter (\<lambda>p. fst p \<notin> set ks) (raw b) \<and> m = n + length ks"
proof (induction ks arbitrary: n b)
  case Nil
  then show ?case by simp
next
  case (Cons k ks)
  from Cons.prems obtain b2 where d: "raw_Delete k b = (None, b2)"
    and r: "delete_keys ks (n + 1) b2 = (Inr m, b1)"
    by (auto split: prod.splits option.splits)
  from Cons.IH[OF r] raw_Delete_ok[OF d] show ?case
    by (auto simp: kv_del_def intro: filter_cong)
qed

lemma sweep_shrinks:
  assumes "raw_Scan s e l b = (Inr found, b1)" "found \<noteq> []"
    "delete_keys (map fst found) n b1 = (Inr m, b2)"
  shows "length (raw b2) < length (raw b)"
proof -
  from raw_Scan_found[OF assms(1)] have f: "found = take (nat l) (filter (in_range s e) (raw b))"
    and r: "raw b1 = raw b" by auto
  from assms(2) obtain p where p: "p \<in> set found" by (cases found) auto
  with f have "p \<in> set (raw b)" by (auto dest: in_set_takeD)
  moreover from p have "\<not> (fst p \<notin> set (map fst found))" by auto
  ultimately have "length (filter (\<lambda>q. fst q \<notin> set (map fst found)) (raw b)) < length (raw b)"
    by (rule length_filter_less)
  with delete_keys_ok[OF assms(3)] r show ?thesis by simp
qed

function raw_sweep :: "key \<Rightarrow> key \<Rightarrow> nat \<Rightarrow> backend \<Rightarrow> ApiResponse \<times> backend" where
  "raw_sweep endKey scanStart deletedCount b =
     (case raw_Scan scanStart endKey 1000 b of
        (Inl e, b1) \<Rightarrow>
          (reply 500 False (''Failed to scan keys for deletion: '' @ e) NoData e, b1)
      | (Inr found, b1) \<Rightarrow>
          (if length found = 0 then
             (reply 200 True ''Delete all keys successful'' (Deleted deletedCount ''rawkv'') [], b1)
           else
             (case delete_keys (map fst found) deletedCount b1 of
                (Inl e, b2) \<Rightarrow> (reply 500 False (''Failed to delete key: '' @ e) NoData e, b2)
              | (Inr n, b2) \<Rightarrow> raw_sweep endKey (fst (last found) @ [CHR 0x00]) n b2)))"
  by pat_completeness auto
termination
proof (relation "measure (\<lambda>(endKey, scanStart, deletedCount, b). length (raw b))")
  show "wf (measure (\<lambda>(endKey, scanStart, deletedCount, b). length (raw b)))" by simp
next
  fix endKey scanStart :: key and deletedCount :: nat and b x1 found b1 y n b2
  show "\<And>a. (a, b1) = raw_Scan scanStart endKey 1000 b \<Longrightarrow> a = Inr found \<Longrightarrow> length found \<noteq> 0 \<Longrightarrow>
       (y, b2) = delete_keys (map fst found) deletedCount b1 \<Longrightarrow> y = Inr n \<Longrightarrow>
       ((endKey, fst (last found) @ [CHR 0x00], n, b2), endKey, scanStart, deletedCount, b)
       \<in> measure (\<lambda>(endKey, scanStart, deletedCount, b). length (raw b))"
    using sweep_shrinks[of scanStart endKey 1000 b found b1 deletedCount n b2] by auto
qed


text \<open>\<open>main.go\<close>, \<open>handleDeleteAllKVs\<close>, the \<open>txn\<close> case. One round of its loop either
  returns a response, leaves the loop (\<open>break\<close>) or goes round again, with the count of
  deleted keys so far.\<close>

datatype round = Return ApiResponse | Break nat | Continue nat

fun collect :: "nat \<Rightarrow> nat \<Rightarrow> kvs \<Rightarrow> key list \<Rightarrow> backend \<Rightarrow> (err + key list) \<times> backend" where
  "collect t batchSize [] keys b = (Inr keys, b)"
| "collect t batchSize (item # items) keys b =
     (if length keys < batchSize then
        (case iter_Next t b of
           (Some e, b1) \<Rightarrow> (Inl e, b1)
         | (None, b1) \<Rightarrow> collect t batchSize items (keys @ [fst item]) b1)
      else (Inr keys, b))"

fun stage_deletes :: "nat \<Rightarrow> key list \<Rightarrow> backend \<Rightarrow> err option \<times> backend" where
  "stage_deletes t [] b = (None, b)"
| "stage_deletes t (k # ks) b =
     (case txn_Delete t k b of
        (Some e, b1) \<Rightarrow> (Some e, b1)
      | (None, b1) \<Rightarrow> stage_deletes t ks b1)"

definition txn_round :: "key \<Rightarrow> key \<Rightarrow> nat \<Rightarrow> nat \<Rightarrow> backend \<Rightarrow> round \<times> backend" where
  "txn_round startKey endKey batchSize deletedCount b =
     (case txn_Begin b of
        (Inl e, b1) \<Rightarrow>
          (Return (reply 500 False (''Failed to begin transaction: '' @ e) NoData e), b1)
      | (Inr t, b1) \<Rightarrow>
          (case txn_Iter t startKey endKey b1 of
             (Inl e, b2) \<Rightarrow>
               (Return (reply 500 False (''Failed to create iterator: '' @ e) NoData e),
                txn_Rollback t b2)
           | (Inr items, b2) \<Rightarrow>
               (case collect t batchSize items [] b2 of
                  (Inl e, b3) \<Rightarrow>
                    (Return (reply 500 False (''Iterator next error: '' @ e) NoData e),
                     txn_Rollback t b3)
                | (Inr keys, b3) \<Rightarrow>
                    (if length keys = 0 then (Break deletedCount, txn_Rollback t b3)
                     else
                       (case stage_deletes t keys b3 of
                          (Some e, b4) \<Rightarrow>
                            (Return (reply 500 False (''Failed to delete key: '' @ e) NoData e),
                             txn_Rollback t b4)
                        | (None, b4) \<Rightarrow>
                            (case txn_Commit t b4 of
                               (Some e, b5) \<Rightarrow>
                                 (Return (reply 500 False (''Failed to commit transaction: '' @ e) NoData e),
                                  b5)
                             | (None, b5) \<Rightarrow>
                                 (if length keys < batchSize then (Break (deletedCount + length keys), b5)
                                  else (Continue (deletedCount + length keys), b5))))))))"

lemma txn_Begin_ok:
  "txn_Begin b = (Inr t, b1) \<Longrightarrow>
     t = next_tid b \<and> next_tid b1 = Suc (next_tid b) \<and> txnkv b1 = txnkv b \<and> raw b1 = raw b \<and>
     snap b1 = (snap b)(t := txnkv b) \<and> membuf b1 = (membuf b)(t := []) \<and>
     plan b1 = tl (plan b) \<and> \<not> fault b"
  by (auto simp: txn_Begin_def logged_def consume_def split: if_splits)

lemma txn_Iter_ok:
  "txn_Iter t s e b = (Inr items, b1) \<Longrightarrow>
     items = filter (in_range s e) (view b t) \<and> next_tid b1 = next_tid b \<and> txnkv b1 = txnkv b \<and>
     raw b1 = raw b \<and> snap b1 = snap b \<and> membuf b1 = membuf b \<and> plan b1 = tl (plan b) \<and> \<not> fault b"
  by (auto simp: txn_Iter_def logged_def consume_def split: if_splits)

lemma iter_Next_ok:
  "iter_Next t b = (None, b1) \<Longrightarrow>
     next_tid b1 = next_tid b \<and> txnkv b1 = txnkv b \<and> raw b1 = raw b \<and> snap b1 = snap b \<and>
     membuf b1 = membuf b \<and> plan b1 = tl (plan b) \<and> \<not> fault b"
  by (auto simp: iter_Next_def logged_def consume_def split: if_splits)

lemma txn_Delete_ok:
  "txn_Delete t k b = (None, b1) \<Longrightarrow>
     next_tid b1 = next_tid b \<and> txnkv b1 = txnkv b \<and> raw b1 = raw b \<and> snap b1 = snap b \<and>
     membuf b1 = (membuf b)(t := (k, None) # membuf b t) \<and> plan b1 = tl (plan b) \<and> \<not> fault b"
  by (auto simp: txn_Delete_def logged_def consume_def split: if_splits)

lemma txn_Commit_ok:
  "txn_Commit t b = (None, b1) \<Longrightarrow>
     next_tid b1 = next_tid b \<and> txnkv b1 = foldr stage (membuf b t) (txnkv b) \<and> raw b1 = raw b \<and>
     snap b1 = snap b \<and> membuf b1 = membuf b \<and> plan b1 = tl (plan b) \<and> \<not> fault b"
  by (auto simp: txn_Commit_def logged_def consume_def split: if_splits)

lemma collect_ok:
  "collect t n items acc b = (Inr keys, b1) \<Longrightarrow>
     keys = acc @ take (n - length acc) (map fst items) \<and> next_tid b1 = next_tid b \<and>
     txnkv b1 = txnkv b \<and> raw b1 = raw b \<and> snap b1 = snap b \<and> membuf b1 = membuf b"
proof (induction items arbitrary: acc b)
  case Nil
  then show ?case by simp
next
  case (Cons item items)
  show ?case
  proof (cases "length acc < n")
    case True
    with Cons.prems obtain b2 where nx: "iter_Next t b = (None, b2)"
      and r: "collect t n items (acc @ [fst item]) b2 = (Inr keys, b1)"
      by (auto split: prod.splits option.splits)
    from True have "n - length acc = Suc (n - Suc (length acc))" by simp
    with Cons.IH[OF r] iter_Next_ok[OF nx] show ?thesis by simp
  next
    case False
    with Cons.prems show ?thesis by simp
  qed
qed

lemma stage_deletes_ok:
  "stage_deletes t ks b = (None, b1) \<Longrightarrow>
     next_tid b1 = next_tid b \<and> txnkv b1 = txnkv b \<and> raw b1 = raw b \<and> snap b1 = snap b \<and>
     membuf b1 = (membuf b)(t := rev (map (\<lambda>k. (k, None)) ks) @ membuf b t)"
proof (induction ks arbitrary: b)
  case Nil
  then show ?case by simp
next
  case (Cons k ks)
  from Cons.prems obtain b2 where d: "txn_Delete t k b = (None, b2)"
    and r: "stage_deletes t ks b2 = (None, b1)"
    by (auto split: prod.splits option.splits)
  from Cons.IH[OF r] txn_Delete_ok[OF d] show ?case by (auto simp: fun_eq_iff)
qed

lemma foldr_stage_deletes:
  "foldr stage (rev (map (\<lambda>k. (k, None)) ks)) xs = filter (\<lambda>p. fst p \<notin> set ks) xs"
proof (induction ks arbitrary: xs)
  case Nil
  then show ?case by simp
next
  case (Cons k ks)
  have "foldr stage (rev (map (\<lambda>k. (k, None)) (k # ks))) xs
        = foldr stage (rev (map (\<lambda>k. (k, None)) ks)) (kv_del k xs)"
    by (simp add: stage_def)
  also have "\<dots> = filter (\<lambda>p. fst p \<notin> set ks) (kv_del k xs)" by (rule Cons.IH)
  also have "\<dots> = filter (\<lambda>p. fst p \<notin> set (k # ks)) xs"
    by (auto simp: kv_del_def intro: filter_cong)
  finally show ?case .
qed

lemma txn_round_Continue:
  assumes "txn_round s e n d b = (Continue d1, b1)"
  shows "\<exists>keys. keys = take n (map fst (filter (in_range s e) (txnkv b))) \<and> length keys = n \<and> n \<noteq> 0 \<and>
           d1 = d + n \<and> txnkv b1 = filter (\<lambda>p. fst p \<notin> set keys) (txnkv b) \<and>
           raw b1 = raw b \<and> next_tid b1 = Suc (next_tid b)"
proof -
  from assms obtain t ba items bb keys bc bd where
    bg: "txn_Begin b = (Inr t, ba)" and it: "txn_Iter t s e ba = (Inr items, bb)"
    and co: "collect t n items [] bb = (Inr keys, bc)" and ne: "length keys \<noteq> 0"
    and st: "stage_deletes t keys bc = (None, bd)" and cm: "txn_Commit t bd = (None, b1)"
    and ge: "\<not> length keys < n" and d1: "d1 = d + length keys"
    unfolding txn_round_def
    by (auto split: prod.splits sum.splits option.splits if_splits)
  note B = txn_Begin_ok[OF bg] and I = txn_Iter_ok[OF it] and C = collect_ok[OF co]
    and S = stage_deletes_ok[OF st] and M = txn_Commit_ok[OF cm]
  have v: "view ba t = txnkv b" using B by (simp add: view_def)
  have k: "keys = take n (map fst (filter (in_range s e) (txnkv b)))" using C I v by simp
  with ge have ln: "length keys = n" by simp
  have mb: "membuf bd t = rev (map (\<lambda>k. (k, None)) keys)" using S C I B by simp
  have "txnkv b1 = filter (\<lambda>p. fst p \<notin> set keys) (txnkv b)"
    using M mb S C I B by (simp add: foldr_stage_deletes)
  moreover have "raw b1 = raw b" using M S C I B by simp
  moreover have "next_tid b1 = Suc (next_tid b)" using M S C I B by simp
  ultimately show ?thesis using k ln ne d1 by auto
qed

lemma txn_round_shrinks:
  assumes "txn_round s e n d b = (Continue d1, b1)"
  shows "length (txnkv b1) < length (txnkv b)"
proof -
  from txn_round_Continue[OF assms] obtain keys where
    k: "keys = take n (map fst (filter (in_range s e) (txnkv b)))" and ln: "length keys = n" "n \<noteq> 0"
    and t: "txnkv b1 = filter (\<lambda>p. fst p \<notin> set keys) (txnkv b)" by blast
  from ln obtain x where x: "x \<in> set keys" by (cases keys) auto
  with k have "x \<in> fst ` set (txnkv b)" by (auto dest!: in_set_takeD)
  then obtain p where p: "p \<in> set (txnkv b)" "fst p = x" by auto
  have "length (filter (\<lambda>p. fst p \<notin> set keys) (txnkv b)) < length (txnkv b)"
    by (rule length_filter_less[OF p(1)]) (use p x in simp)
  with t show ?thesis by simp
qed

function txn_sweep :: "key \<Rightarrow> key \<Rightarrow> nat \<Rightarrow> nat \<Rightarrow> backend \<Rightarrow> ApiResponse \<times> backend" where
  "txn_sweep startKey endKey batchSize deletedCount b =
     (case txn_round startKey endKey batchSize deletedCount b of
        (Return r, b1) \<Rightarrow> (r, b1)
      | (Break n, b1) \<Rightarrow>
          (reply 200 True ''Delete all keys successful'' (Deleted n ''txn'') [], b1)
      | (Continue n, b1) \<Rightarrow> txn_sweep startKey endKey batchSize n b1)"
  by pat_completeness auto
termination
proof (relation "measure (\<lambda>(startKey, endKey, batchSize, deletedCount, b). length (txnkv b))")
  show "wf (measure (\<lambda>(startKey, endKey, batchSize, deletedCount, b). length (txnkv b)))" by simp
next
  fix startKey endKey :: key and batchSize deletedCount n :: nat and b b1 x
  assume "(x, b1) = txn_round startKey endKey batchSize deletedCount b" "x = Continue n"
  then have "txn_round startKey endKey batchSize deletedCount b = (Continue n, b1)" by simp
  from txn_round_shrinks[OF this]
  show "((startKey, endKey, batchSize, n, b1), startKey, endKey, batchSize, deletedCount, b)
        \<in> measure (\<lambda>(startKey, endKey, batchSize, deletedCount, b). length (txnkv b))"
    by simp
qed

declare raw_sweep.simps [simp del]

declare txn_sweep.simps [simp del]

definition handleDeleteAllKVs :: "string \<Rightarrow> globals \<Rightarrow> backend \<Rightarrow> ApiResponse \<times> backend" where
  "handleDeleteAllKVs kvType g b =
     (if kvType = ''rawkv'' then
        (if \<not> rawKvClient g \<or> RawKVClient g = None then
           (reply 503 False ''TiKV RawKV client not initialized'' NoData [], b)
         else raw_sweep (snd (prefixedRange [])) (fst (prefixedRange [])) 0 b)
      else if kvType = ''txn'' then
        (if txnClient g = None then
           (reply 503 False ''TiKV TxnKV client not initialized'' NoData [], b)
         else txn_sweep (fst (prefixedRange [])) (snd (prefixedRange [])) 200 0 b)
      else (reply 400 False ''Invalid type parameter'' NoData [], b))"

text \<open>The managed namespace is the range of the empty prefix, which both sweeps and
  the scan of everything use.\<close>

definition managed :: "key \<times> val \<Rightarrow> bool" where
  "managed p = in_range (fst (prefixedRange [])) (snd (prefixedRange [])) p"

section \<open>Example states\<close>

text \<open>Both clients connected, an empty backend that never fails, a cluster on which
  only the direct-mode open succeeds, and a parser for a single endpoint.\<close>

definition g_up :: globals where
  "g_up = \<lparr>RawKVClient = Some 0, TxnKVClient = Some 1, rawKvClient = True, txnClient = Some 1,
           dao_rawKvClient = True, dao_txnKvClient = True,
           currentEndpoints = [''127.0.0.1:2379''], closed = [], next_handle = 2\<rparr>"

definition b_empty :: backend where
  "b_empty = \<lparr>raw = [], txnkv = [], plan = [], next_tid = 0, snap = (\<lambda>t. []),
              membuf = (\<lambda>t. []), calls = []\<rparr>"

definition txn_down :: dialer where
  "txn_down = \<lparr>dial_rawkv = (\<lambda>endpoints. None), dial_txnkv = (\<lambda>endpoints. Some ''pd unreachable'')\<rparr>"

definition parse_one :: "string \<Rightarrow> err + string list" where
  "parse_one body = Inr [body]"


text \<open>A transaction request with a put of an empty value, a batch with one direct put,
  and a direct store that holds the empty value under a key, with and without the
  prefix.\<close>

definition put_empty :: "AtomicOperation list" where
  "put_empty = [\<lparr>aop_Type = ''put'', aop_Key = ''k'', aop_Value = []\<rparr>]"

definition put_a :: "Operation list" where
  "put_a = [\<lparr>op_Type = ''rawkv'', op_Key = ''a'', op_Value = ''v''\<rparr>]"


text \<open>A backend with one pair in the direct store and three in the transactional
  store, and a page number whose offset at page size 4 is \<open>2 ^ 64\<close>.\<close>

definition b_pair :: backend where
  "b_pair = b_empty\<lparr>raw := [(''a'', ''1'')], txnkv := [(''a'', ''1''), (''b'', ''2''), (''c'', ''3'')]\<rparr>"

definition far_page :: int where
  "far_page = 4611686018427387905"

text \<open>Three pairs in each store.\<close>

definition b_three :: backend where
  "b_three = b_empty\<lparr>raw := [(''a'', ''1''), (''b'', ''2''), (''c'', ''3'')],
                      txnkv := [(''a'', ''1''), (''b'', ''2''), (''c'', ''3'')]\<rparr>"

section \<open>Facts about the backend calls\<close>

lemmas backend_defs =
  raw_Put_def raw_Get_def raw_Delete_def raw_Scan_def txn_Begin_def txn_Get_def txn_Set_def
  txn_Delete_def txn_Iter_def iter_Next_def txn_Commit_def txn_Rollback_def
  RawKv_Get_def RawKv_Put_def RawKv_Delete_def RawKv_Scan_def TxnKv_Begin_def TxnKv_Commit_def
  TxnKv_Rollback_def TxnKv_Get_def TxnKv_Set_def TxnKv_Delete_def
  fault_def consume_def logged_def

section \<open>Reconfiguration\<close>

lemma InitializeTiKVClient_raw_fails:
  "dial_rawkv d eps = Some e \<Longrightarrow> InitializeTiKVClient d eps g = (Some e, g)"
  by (simp add: InitializeTiKVClient_def NewRawKvClient_def)

lemma InitializeTiKVClient_txn_fails:
  "dial_rawkv d eps = None \<Longrightarrow> dial_txnkv d eps = Some e \<Longrightarrow>
   InitializeTiKVClient d eps g =
     (Some e, g\<lparr>RawKVClient := Some (next_handle g),
                next_handle := Suc (next_handle g),
                closed := (case RawKVClient g of None \<Rightarrow> closed g | Some h \<Rightarrow> closed g @ [h]),
                rawKvClient := True\<rparr>)"
  by (simp add: InitializeTiKVClient_def NewRawKvClient_def NewTxnClient_def)

lemma InitializeTiKVClient_error_cases:
  assumes "InitializeTiKVClient d eps g = (Some e, g')"
  shows "(dial_rawkv d eps = Some e \<and> g' = g) \<or>
         (dial_rawkv d eps = None \<and> dial_txnkv d eps = Some e)"
  using assms
  by (auto simp: InitializeTiKVClient_def NewRawKvClient_def NewTxnClient_def
           split: option.splits)

text \<open>
  C2, as stated, fails: with both clients connected, a reconfiguration whose direct-mode
  open succeeds and whose transactional-mode open fails is answered with an error, and
  yet the direct-mode handle is the new one and the previous one has been closed.
\<close>

theorem reconfigure_partial_swap:
  "\<not> Success (fst (handleUpdateClusterEndpoints parse_one txn_down ''10.0.0.9:2379'' g_up)) \<and>
   RawKVClient g_up = Some 0 \<and>
   RawKVClient (snd (handleUpdateClusterEndpoints parse_one txn_down ''10.0.0.9:2379'' g_up)) = Some 2 \<and>
   closed (snd (handleUpdateClusterEndpoints parse_one txn_down ''10.0.0.9:2379'' g_up)) = [0]"
  by (simp add: handleUpdateClusterEndpoints_def InitializeTiKVClient_def NewRawKvClient_def
        NewTxnClient_def parse_one_def txn_down_def g_up_def reply_def)

text \<open>
  C2, amended: when a reconfiguration fails, the reported endpoint set and the
  transactional handle are as before the call. The globals are untouched altogether when
  the endpoints do not parse or the direct-mode open fails; when the direct-mode open
  succeeds and the transactional-mode open fails, the direct-mode handle has been
  replaced by the new one and the handle it replaced has been closed.
\<close>

theorem reconfigure_failure:
  assumes "handleUpdateClusterEndpoints parse d body g = (r, g')" and "\<not> Success r"
  shows "currentEndpoints g' = currentEndpoints g \<and>
         handleGetClusterStatus g' = handleGetClusterStatus g \<and>
         TxnKVClient g' = TxnKVClient g \<and> txnClient g' = txnClient g \<and>
         (g' = g \<or>
          (\<exists>endpoints e. parse body = Inr endpoints \<and> dial_rawkv d endpoints = None \<and>
             dial_txnkv d endpoints = Some e \<and>
             g' = g\<lparr>RawKVClient := Some (next_handle g),
                    next_handle := Suc (next_handle g),
                    closed := (case RawKVClient g of None \<Rightarrow> closed g | Some h \<Rightarrow> closed g @ [h]),
                    rawKvClient := True\<rparr>))"
proof (cases "parse body")
  case (Inl e)
  with assms show ?thesis by (simp add: handleUpdateClusterEndpoints_def)
next
  case (Inr endpoints)
  obtain res g1 where i: "InitializeTiKVClient d endpoints g = (res, g1)" by (cases "InitializeTiKVClient d endpoints g")
  show ?thesis
  proof (cases res)
    case None
    with assms Inr i show ?thesis by (auto simp: handleUpdateClusterEndpoints_def reply_def)
  next
    case (Some e)
    with assms Inr i have g': "g' = g1" by (simp add: handleUpdateClusterEndpoints_def)
    from InitializeTiKVClient_error_cases[OF i[unfolded Some]]
    show ?thesis
    proof
      assume "dial_rawkv d endpoints = Some e \<and> g1 = g"
      with g' show ?thesis by simp
    next
      assume a: "dial_rawkv d endpoints = None \<and> dial_txnkv d endpoints = Some e"
      with InitializeTiKVClient_txn_fails[of d endpoints e g] i Some g' Inr
      show ?thesis by (auto simp: handleGetClusterStatus_def getCurrentEndpoints_def)
    qed
  qed
qed

text \<open>C2, amended, at the failing reconfiguration above.\<close>

theorem reconfigure_failure_witness:
  "\<not> Success (fst (handleUpdateClusterEndpoints parse_one txn_down ''10.0.0.9:2379'' g_up)) \<and>
   currentEndpoints (snd (handleUpdateClusterEndpoints parse_one txn_down ''10.0.0.9:2379'' g_up))
     = [''127.0.0.1:2379''] \<and>
   TxnKVClient (snd (handleUpdateClusterEndpoints parse_one txn_down ''10.0.0.9:2379'' g_up)) = Some 1 \<and>
   txnClient (snd (handleUpdateClusterEndpoints parse_one txn_down ''10.0.0.9:2379'' g_up)) = Some 1"
proof -
  have f: "\<not> Success (fst (handleUpdateClusterEndpoints parse_one txn_down ''10.0.0.9:2379'' g_up))"
    by (simp add: handleUpdateClusterEndpoints_def InitializeTiKVClient_def NewRawKvClient_def
        NewTxnClient_def parse_one_def txn_down_def g_up_def reply_def)
  from reconfigure_failure[OF surjective_pairing f]
  have "currentEndpoints (snd (handleUpdateClusterEndpoints parse_one txn_down ''10.0.0.9:2379'' g_up))
          = currentEndpoints g_up"
    and "TxnKVClient (snd (handleUpdateClusterEndpoints parse_one txn_down ''10.0.0.9:2379'' g_up)) = TxnKVClient g_up"
    and "txnClient (snd (handleUpdateClusterEndpoints parse_one txn_down ''10.0.0.9:2379'' g_up)) = txnClient g_up"
    by blast+
  with f show ?thesis by (simp add: g_up_def)
qed


section \<open>Batch results\<close>

lemma run_operations_fst:
  "fst (run_operations body (op # ops) b)
     = fst (body op b) # fst (run_operations body ops (snd (body op b)))"
  by (simp split: prod.splits)

lemma run_operations_snd:
  "snd (run_operations body (op # ops) b) = snd (run_operations body ops (snd (body op b)))"
  by (simp split: prod.splits)

declare run_operations.simps(2) [simp del]

lemma run_operations_length: "length (fst (run_operations body ops b)) = length ops"
  by (induction ops arbitrary: b) (simp_all add: run_operations_fst)

lemma run_operations_nth:
  "i < length ops \<Longrightarrow>
   fst (run_operations body ops b) ! i = fst (body (ops ! i) (snd (run_operations body (take i ops) b)))"
proof (induction ops arbitrary: i b)
  case Nil
  then show ?case by simp
next
  case (Cons op ops)
  show ?case
  proof (cases i)
    case 0
    then show ?thesis by (simp add: run_operations_fst)
  next
    case (Suc j)
    with Cons.prems have "j < length ops" by simp
    from Cons.IH[OF this, of "snd (body op b)"] Suc show ?thesis
      by (simp add: run_operations_fst run_operations_snd)
  qed
qed


lemma run_operations_all:
  "run_operations body ops b = (rs, b1) \<Longrightarrow> length rs = length ops \<and> b1 = snd (run_operations body ops b)"
  using run_operations_length[of body ops b] by simp

lemma count_results_filter:
  "count_results rs (s, f) =
     (s + length (filter res_Success rs), f + length (filter (\<lambda>r. \<not> res_Success r) rs))"
  by (induction rs arbitrary: s f) auto

lemma rawkv_operation_entry:
  "res_Key (fst (rawkv_operation wire op b)) = op_Key op \<and>
   res_Operation (fst (rawkv_operation wire op b)) = operationType op"
  by (auto simp: rawkv_operation_def failed_def succeeded_def split: prod.splits option.splits sum.splits)

lemma txn_operation_entry:
  "res_Key (fst (txn_operation wire op b)) = op_Key op \<and>
   res_Operation (fst (txn_operation wire op b)) = operationType op"
  by (auto simp: txn_operation_def failed_def succeeded_def split: prod.splits option.splits sum.splits)


lemma BatchOperation_entry:
  "res_Key (fst (BatchOperation g op b)) = op_Key op \<and>
   res_Operation (fst (BatchOperation g op b)) = operationType op"
  using rawkv_operation_entry[of makeKey op b] txn_operation_entry[of makeKey op b]
  by (simp add: BatchOperation_def failed_def)

lemma rawkv_operation_failure:
  "\<not> res_Success (fst (rawkv_operation wire op b)) \<Longrightarrow>
   raw (snd (rawkv_operation wire op b)) = raw b \<and> txnkv (snd (rawkv_operation wire op b)) = txnkv b"
  by (auto simp: rawkv_operation_def failed_def succeeded_def raw_Put_def raw_Get_def raw_Delete_def
        logged_def consume_def split: if_splits)

lemma txn_operation_failure:
  "\<not> res_Success (fst (txn_operation wire op b)) \<Longrightarrow>
   raw (snd (txn_operation wire op b)) = raw b \<and> txnkv (snd (txn_operation wire op b)) = txnkv b"
  by (auto simp: txn_operation_def failed_def succeeded_def txn_Begin_def txn_Set_def txn_Get_def
        txn_Delete_def txn_Commit_def txn_Rollback_def logged_def consume_def
        split: if_splits option.splits)




lemma run_operations_entries:
  assumes "\<And>op b. res_Key (fst (body op b)) = op_Key op \<and>
                    res_Operation (fst (body op b)) = operationType op"
  shows "map res_Key (fst (run_operations body ops b)) = map op_Key ops \<and>
         map res_Operation (fst (run_operations body ops b)) = map operationType ops"
  by (induction ops arbitrary: b) (simp_all add: run_operations_fst assms)





section \<open>The handlers of \<open>handlers.go\<close>\<close>

subsection \<open>\<open>AtomicTransaction\<close>\<close>

text \<open>The staging loop makes no \<open>Begin\<close> and no \<open>Commit\<close>, leaves the stores alone, ends
  with a \<open>Rollback\<close> whenever it leaves with a response, and otherwise has staged the
  writes of the request in submission order.\<close>

lemma writes_Nil: "writes [] = []"
  by (simp add: writes_def)

lemma writes_Cons:
  "writes (op # ops) =
     (if aop_Type op = ''put'' then (makeKey (aop_Key op), Some (aop_Value op)) # writes ops
      else if aop_Type op = ''delete'' then (makeKey (aop_Key op), None) # writes ops
      else writes ops)"
  by (simp add: writes_def)

lemma stage_operations_any:
  assumes "stage_operations t ops b = (r, b')"
  shows "raw b' = raw b \<and> txnkv b' = txnkv b \<and> next_tid b' = next_tid b \<and>
         (\<exists>cs. calls b' = calls b @ cs \<and>
               (\<forall>c \<in> set cs. \<not> is_begin (fst c) \<and> \<not> is_commit (fst c)) \<and>
               (r \<noteq> None \<longrightarrow> cs \<noteq> [] \<and> last cs = (TxnRollback t, True)) \<and>
               (\<forall>resp. r = Some resp \<longrightarrow> \<not> Success resp) \<and>
               (r = None \<longrightarrow> (\<forall>c \<in> set cs. \<not> is_rollback (fst c) \<and> snd c))) \<and>
         (r = None \<longrightarrow> membuf b' t = rev (writes ops) @ membuf b t \<and>
                        (\<forall>op \<in> set ops. \<not> empty_put op))"
  using assms
proof (induction ops arbitrary: b)
  case Nil
  then show ?case by (simp add: writes_Nil)
next
  case (Cons op ops)
  show ?case
  proof (cases "aop_Type op = ''put''")
    case put: True
    show ?thesis
    proof (cases "aop_Value op = []")
      case True
      with put Cons.prems show ?thesis
        by (auto simp: TxnKv_Rollback_def txn_Rollback_def logged_def reply_def)
    next
      case nonempty: False
      obtain e b1 where s: "TxnKv_Set t (aop_Key op) (aop_Value op) b = (e, b1)"
        by (cases "TxnKv_Set t (aop_Key op) (aop_Value op) b")
      show ?thesis
      proof (cases e)
        case (Some x)
        with put nonempty s Cons.prems show ?thesis
          by (auto simp: TxnKv_Rollback_def txn_Rollback_def logged_def TxnKv_Set_def txn_Set_def
              consume_def reply_def split: if_splits)
      next
        case None
        with put nonempty s Cons.prems have rec: "stage_operations t ops b1 = (r, b')" by simp
        from None s have b1: "raw b1 = raw b" "txnkv b1 = txnkv b" "next_tid b1 = next_tid b"
          "calls b1 = calls b @ [(TxnSet t (makeKey (aop_Key op)) (aop_Value op), True)]"
          "membuf b1 t = (makeKey (aop_Key op), Some (aop_Value op)) # membuf b t"
          by (auto simp: TxnKv_Set_def txn_Set_def logged_def consume_def split: if_splits)
        from Cons.IH[OF rec] b1 put nonempty show ?thesis
          by (auto simp: writes_Cons empty_put_def)
      qed
    qed
  next
    case notput: False
    show ?thesis
    proof (cases "aop_Type op = ''delete''")
      case del: True
      obtain e b1 where s: "TxnKv_Delete t (aop_Key op) b = (e, b1)"
        by (cases "TxnKv_Delete t (aop_Key op) b")
      show ?thesis
      proof (cases e)
        case (Some x)
        with notput del s Cons.prems show ?thesis
          by (auto simp: TxnKv_Rollback_def txn_Rollback_def logged_def TxnKv_Delete_def
              txn_Delete_def consume_def reply_def split: if_splits)
      next
        case None
        with notput del s Cons.prems have rec: "stage_operations t ops b1 = (r, b')" by simp
        from None s have b1: "raw b1 = raw b" "txnkv b1 = txnkv b" "next_tid b1 = next_tid b"
          "calls b1 = calls b @ [(TxnDelete t (makeKey (aop_Key op)), True)]"
          "membuf b1 t = (makeKey (aop_Key op), None) # membuf b t"
          by (auto simp: TxnKv_Delete_def txn_Delete_def logged_def consume_def split: if_splits)
        from Cons.IH[OF rec] b1 notput del show ?thesis
          by (auto simp: writes_Cons empty_put_def)
      qed
    next
      case False
      with notput Cons.prems have rec: "stage_operations t ops b = (r, b')" by simp
      from Cons.IH[OF rec] notput False show ?thesis
        by (auto simp: writes_Cons empty_put_def)
    qed
  qed
qed

lemma stage_operations_total:
  assumes "plan b = []" and "stage_operations t ops b = (r, b')"
  shows "plan b' = [] \<and>
         (r = None \<or> r = Some (reply 400 False ''Value is required for put operation'' NoData [])) \<and>
         ((\<forall>op \<in> set ops. \<not> empty_put op) \<longrightarrow> r = None)"
  using assms
proof (induction ops arbitrary: b)
  case Nil
  then show ?case by simp
next
  case (Cons op ops)
  have nf: "\<not> fault b" using Cons.prems(1) by (simp add: fault_def)
  show ?case
  proof (cases "aop_Type op = ''put''")
    case put: True
    show ?thesis
    proof (cases "aop_Value op = []")
      case True
      with put Cons.prems show ?thesis
        by (auto simp: TxnKv_Rollback_def txn_Rollback_def logged_def empty_put_def)
    next
      case nonempty: False
      define b1 where "b1 = snd (TxnKv_Set t (aop_Key op) (aop_Value op) b)"
      from nf Cons.prems(1) have s: "TxnKv_Set t (aop_Key op) (aop_Value op) b = (None, b1)"
        and p1: "plan b1 = []"
        by (simp_all add: b1_def TxnKv_Set_def txn_Set_def logged_def consume_def)
      with put nonempty Cons.prems have rec: "stage_operations t ops b1 = (r, b')" by simp
      from Cons.IH[OF p1 rec] show ?thesis by auto
    qed
  next
    case notput: False
    show ?thesis
    proof (cases "aop_Type op = ''delete''")
      case del: True
      define b1 where "b1 = snd (TxnKv_Delete t (aop_Key op) b)"
      from nf Cons.prems(1) have s: "TxnKv_Delete t (aop_Key op) b = (None, b1)"
        and p1: "plan b1 = []"
        by (simp_all add: b1_def TxnKv_Delete_def txn_Delete_def logged_def consume_def)
      with notput del Cons.prems have rec: "stage_operations t ops b1 = (r, b')" by simp
      from Cons.IH[OF p1 rec] show ?thesis by auto
    next
      case False
      with notput Cons.prems have rec: "stage_operations t ops b = (r, b')" by simp
      from Cons.IH[OF Cons.prems(1) rec] show ?thesis by auto
    qed
  qed
qed

text \<open>Whatever fails: one \<open>Begin\<close>, at most one \<open>Commit\<close> and only after every write was
  staged and none refused, success exactly when that \<open>Commit\<close> succeeded, no effect on
  the store without success and the writes applied in order with it.\<close>

lemma AtomicTransaction_any:
  assumes c: "dao_txnKvClient g" and run: "AtomicTransaction ops g b = (r, b')"
  shows "raw b' = raw b \<and>
         (\<exists>ok cs. calls b' = calls b @ (TxnBegin (next_tid b), ok) # cs \<and>
            (\<forall>c \<in> set cs. \<not> is_begin (fst c)) \<and>
            length (filter (\<lambda>c. is_commit (fst c)) cs) \<le> 1 \<and>
            ((\<exists>c \<in> set cs. is_commit (fst c)) \<longrightarrow>
               (\<forall>c \<in> set cs. \<not> is_rollback (fst c)) \<and> (\<forall>op \<in> set ops. \<not> empty_put op)) \<and>
            (Success r \<longleftrightarrow> (TxnCommit (next_tid b), True) \<in> set cs)) \<and>
         (\<not> Success r \<longrightarrow> txnkv b' = txnkv b) \<and>
         (Success r \<longrightarrow> txnkv b' = fold stage (writes ops) (txnkv b))"
proof -
  obtain x b1 where bg: "TxnKv_Begin b = (x, b1)" by (cases "TxnKv_Begin b")
  show ?thesis
  proof (cases x)
    case (Inl e)
    with bg c run show ?thesis
      by (auto simp: AtomicTransaction_def TxnKv_Begin_def txn_Begin_def logged_def consume_def
          reply_def split: if_splits)
  next
    case (Inr t)
    with bg have t: "t = next_tid b" and b1: "raw b1 = raw b" "txnkv b1 = txnkv b"
      "calls b1 = calls b @ [(TxnBegin (next_tid b), True)]" "membuf b1 t = []"
      by (auto simp: TxnKv_Begin_def txn_Begin_def logged_def consume_def split: if_splits)
    obtain s b2 where st: "stage_operations t ops b1 = (s, b2)"
      by (cases "stage_operations t ops b1")
    from stage_operations_any[OF st] b1 obtain cs where
      b2: "raw b2 = raw b" "txnkv b2 = txnkv b" "calls b2 = calls b @ (TxnBegin (next_tid b), True) # cs"
      and cs: "\<forall>c \<in> set cs. \<not> is_begin (fst c) \<and> \<not> is_commit (fst c)"
      and some: "s \<noteq> None \<longrightarrow> cs \<noteq> [] \<and> last cs = (TxnRollback t, True)"
      and fail: "\<forall>resp. s = Some resp \<longrightarrow> \<not> Success resp"
      and none: "s = None \<longrightarrow> (\<forall>c \<in> set cs. \<not> is_rollback (fst c) \<and> snd c)"
      and buf: "s = None \<longrightarrow> membuf b2 t = rev (writes ops) \<and> (\<forall>op \<in> set ops. \<not> empty_put op)"
      by auto
    show ?thesis
    proof (cases s)
      case (Some resp)
      with Inr bg st c run have r: "r = resp" "b' = b2" by (auto simp: AtomicTransaction_def)
      with fail Some have nr: "\<not> Success r" by simp
      from cs have nc: "filter (\<lambda>c. is_commit (fst c)) cs = []" by (auto simp: filter_empty_conv)
      from cs have nc2: "(TxnCommit (next_tid b), True) \<notin> set cs" by force
      from r b2 cs nr nc nc2 show ?thesis by auto
    next
      case None
      obtain e b3 where cm: "TxnKv_Commit t b2 = (e, b3)" by (cases "TxnKv_Commit t b2")
      from cs have nc: "filter (\<lambda>c. is_commit (fst c)) cs = []" by (auto simp: filter_empty_conv)
      from cs have nc2: "(TxnCommit (next_tid b), True) \<notin> set cs" by force
      from none None have nrb: "\<forall>c \<in> set cs. \<not> is_rollback (fst c)" by simp
      from buf None have noe: "\<forall>op \<in> set ops. \<not> empty_put op"
        and mb: "membuf b2 t = rev (writes ops)" by simp_all
      show ?thesis
      proof (cases e)
        case (Some x)
        with None Inr bg st cm c run have r: "r = reply 500 False ''Failed to commit atomic transaction'' NoData x"
          "b' = b3" by (auto simp: AtomicTransaction_def)
        from Some cm b2 t have b3: "raw b3 = raw b" "txnkv b3 = txnkv b"
          "calls b3 = calls b @ (TxnBegin (next_tid b), True) # (cs @ [(TxnCommit (next_tid b), False)])"
          by (auto simp: TxnKv_Commit_def txn_Commit_def logged_def consume_def split: if_splits)
        have nr: "\<not> Success r" by (simp add: r reply_def)
        have "raw b' = raw b" using r b3 by simp
        moreover have "\<not> Success r \<longrightarrow> txnkv b' = txnkv b" using r b3 by simp
        moreover have "Success r \<longrightarrow> txnkv b' = fold stage (writes ops) (txnkv b)" using nr by simp
        moreover have "\<exists>ok cs. calls b' = calls b @ (TxnBegin (next_tid b), ok) # cs \<and>
            (\<forall>c \<in> set cs. \<not> is_begin (fst c)) \<and>
            length (filter (\<lambda>c. is_commit (fst c)) cs) \<le> 1 \<and>
            ((\<exists>c \<in> set cs. is_commit (fst c)) \<longrightarrow>
               (\<forall>c \<in> set cs. \<not> is_rollback (fst c)) \<and> (\<forall>op \<in> set ops. \<not> empty_put op)) \<and>
            (Success r \<longleftrightarrow> (TxnCommit (next_tid b), True) \<in> set cs)"
          apply (rule exI[of _ True])
          apply (rule exI[of _ "cs @ [(TxnCommit (next_tid b), False)]"])
          using r(2) b3(3) cs nc nc2 nrb noe nr by auto
        ultimately show ?thesis by blast
      next
        case None': None
        with None Inr bg st cm c run have r: "r = reply 200 True ''Atomic transaction completed successfully''
                          (TxnData (length ops)) []"
          "b' = b3" by (auto simp: AtomicTransaction_def)
        from None' cm b2 t mb have b3: "raw b3 = raw b"
          "txnkv b3 = foldr stage (rev (writes ops)) (txnkv b)"
          "calls b3 = calls b @ (TxnBegin (next_tid b), True) # (cs @ [(TxnCommit (next_tid b), True)])"
          by (auto simp: TxnKv_Commit_def txn_Commit_def logged_def consume_def split: if_splits)
        have sr: "Success r" by (simp add: r reply_def)
        have "raw b' = raw b" using r b3 by simp
        moreover have "\<not> Success r \<longrightarrow> txnkv b' = txnkv b" using sr by simp
        moreover have "Success r \<longrightarrow> txnkv b' = fold stage (writes ops) (txnkv b)"
          using r b3 by (simp add: foldr_conv_fold)
        moreover have "\<exists>ok cs. calls b' = calls b @ (TxnBegin (next_tid b), ok) # cs \<and>
            (\<forall>c \<in> set cs. \<not> is_begin (fst c)) \<and>
            length (filter (\<lambda>c. is_commit (fst c)) cs) \<le> 1 \<and>
            ((\<exists>c \<in> set cs. is_commit (fst c)) \<longrightarrow>
               (\<forall>c \<in> set cs. \<not> is_rollback (fst c)) \<and> (\<forall>op \<in> set ops. \<not> empty_put op)) \<and>
            (Success r \<longleftrightarrow> (TxnCommit (next_tid b), True) \<in> set cs)"
          apply (rule exI[of _ True])
          apply (rule exI[of _ "cs @ [(TxnCommit (next_tid b), True)]"])
          using r(2) b3(3) cs nc nc2 nrb noe sr by auto
        ultimately show ?thesis by blast
      qed
    qed
  qed
qed


text \<open>On a backend that does not fail: a put of an empty value anywhere in the request
  gives the validation error after a \<open>Rollback\<close>, and a request without one is committed.\<close>

lemma AtomicTransaction_total:
  assumes c: "dao_txnKvClient g" and p: "plan b = []" and run: "AtomicTransaction ops g b = (r, b')"
  shows "((\<exists>op \<in> set ops. empty_put op) \<longrightarrow>
            r = reply 400 False ''Value is required for put operation'' NoData [] \<and>
            txnkv b' = txnkv b \<and> last (calls b') = (TxnRollback (next_tid b), True)) \<and>
         ((\<forall>op \<in> set ops. \<not> empty_put op) \<longrightarrow>
            r = reply 200 True ''Atomic transaction completed successfully'' (TxnData (length ops)) [] \<and>
            txnkv b' = fold stage (writes ops) (txnkv b))"
proof -
  define t where "t = next_tid b"
  define b1 where "b1 = snd (TxnKv_Begin b)"
  from p have bg: "TxnKv_Begin b = (Inr t, b1)" and p1: "plan b1 = []"
    and b1: "txnkv b1 = txnkv b" "membuf b1 t = []"
    by (simp_all add: b1_def t_def TxnKv_Begin_def txn_Begin_def logged_def consume_def fault_def)
  obtain s b2 where st: "stage_operations t ops b1 = (s, b2)"
    by (cases "stage_operations t ops b1")
  note any = stage_operations_any[OF st]
  note tot = stage_operations_total[OF p1 st]
  show ?thesis
  proof (cases s)
    case (Some resp)
    with bg st c run have r: "r = resp" "b' = b2" by (auto simp: AtomicTransaction_def)
    from Some tot have resp: "resp = reply 400 False ''Value is required for put operation'' NoData []"
      and ex: "\<exists>op \<in> set ops. empty_put op" by auto
    from any Some obtain cs where cs: "calls b2 = calls b1 @ cs" "cs \<noteq> []"
      "last cs = (TxnRollback t, True)" by auto
    from cs have "last (calls b2) = (TxnRollback t, True)" by simp
    with r resp ex any b1 show ?thesis by (auto simp: t_def)
  next
    case None
    with any have noe: "\<forall>op \<in> set ops. \<not> empty_put op"
      and mb: "membuf b2 t = rev (writes ops)" and tx: "txnkv b2 = txnkv b"
      using b1 by simp_all
    from tot have p2: "plan b2 = []" by simp
    define b3 where "b3 = snd (TxnKv_Commit t b2)"
    from p2 mb tx have cm: "TxnKv_Commit t b2 = (None, b3)"
      and b3: "txnkv b3 = foldr stage (rev (writes ops)) (txnkv b)"
      by (simp_all add: b3_def TxnKv_Commit_def txn_Commit_def logged_def consume_def fault_def)
    from None bg st cm c run
    have "r = reply 200 True ''Atomic transaction completed successfully'' (TxnData (length ops)) []"
      and "b' = b3" by (auto simp: AtomicTransaction_def)
    with b3 noe show ?thesis by (simp add: foldr_conv_fold)
  qed
qed

subsection \<open>\<open>BatchOperations\<close>\<close>

text \<open>The batch handler of \<open>handlers.go\<close> reports like the one of \<open>main.go\<close>: one entry
  per operation in submission order, counts that add up, each entry what its operation
  gives on the backend as the earlier ones left it, and no effect of a failed one.\<close>

lemma BatchOperation_failure:
  "\<not> res_Success (fst (BatchOperation g op b)) \<Longrightarrow>
   raw (snd (BatchOperation g op b)) = raw b \<and> txnkv (snd (BatchOperation g op b)) = txnkv b"
  using rawkv_operation_failure[of makeKey op b] txn_operation_failure[of makeKey op b]
  by (auto simp: BatchOperation_def split: if_splits)

lemma BatchOperations_results:
  assumes "BatchOperations g ops b = (r, b')"
  shows "\<exists>results.
           Data r = BatchData results (length (filter res_Success results))
                      (length (filter (\<lambda>x. \<not> res_Success x) results)) \<and>
           map res_Key results = map op_Key ops \<and>
           map res_Operation results = map operationType ops \<and>
           length (filter res_Success results) + length (filter (\<lambda>x. \<not> res_Success x) results)
             = length ops \<and>
           (\<forall>i < length ops.
              results ! i = fst (BatchOperation g (ops ! i)
                                   (snd (run_operations (BatchOperation g) (take i ops) b))))"
proof -
  define results where "results = fst (run_operations (BatchOperation g) ops b)"
  have len: "length results = length ops"
    unfolding results_def by (rule run_operations_length)
  have r: "r = batch_response results"
    using assms by (simp add: BatchOperations_def results_def split: prod.splits)
  have d: "Data r = BatchData results (length (filter res_Success results))
                      (length (filter (\<lambda>x. \<not> res_Success x) results))"
    unfolding r by (simp add: batch_response_def count_results_filter reply_def)
  have keys: "map res_Key results = map op_Key ops \<and> map res_Operation results = map operationType ops"
    unfolding results_def by (rule run_operations_entries) (rule BatchOperation_entry)
  have total: "length (filter res_Success results) + length (filter (\<lambda>x. \<not> res_Success x) results)
                 = length ops"
    using sum_length_filter_compl[of res_Success results] len by simp
  have each: "\<forall>i < length ops.
              results ! i = fst (BatchOperation g (ops ! i)
                                   (snd (run_operations (BatchOperation g) (take i ops) b)))"
    unfolding results_def by (simp add: run_operations_nth)
  from d keys total each show ?thesis by (intro exI[of _ results] conjI) simp_all
qed

subsection \<open>Keys on the wire\<close>

text \<open>Every key that a batch or a transaction request sends to the client through the DAO
  layer is the key of one of its operations behind \<open>tikv_web_\<close>; through \<open>prefixedKey\<close> it
  is that key as it is. Every key that \<open>ScanKVs\<close> returns from a scan of a DAO range is
  the stored key with \<open>tikv_web_\<close> cut off.\<close>

lemma rawkv_operation_wire:
  "\<exists>cs. calls (snd (rawkv_operation wire op b)) = calls b @ cs \<and>
        (\<forall>c \<in> set cs. wire_key (fst c) = Some (wire (op_Key op)))"
  by (auto simp: rawkv_operation_def raw_Put_def raw_Get_def raw_Delete_def logged_def consume_def)

lemma txn_operation_wire:
  "\<exists>cs. calls (snd (txn_operation wire op b)) = calls b @ cs \<and>
        (\<forall>c \<in> set cs. \<forall>k. wire_key (fst c) = Some k \<longrightarrow> k = wire (op_Key op))"
  by (auto simp: txn_operation_def txn_Begin_def txn_Set_def txn_Get_def txn_Delete_def
      txn_Commit_def txn_Rollback_def logged_def consume_def split: option.splits)

lemma run_operations_wire:
  assumes body: "\<And>op b. \<exists>cs. calls (snd (body op b)) = calls b @ cs \<and>
                    (\<forall>c \<in> set cs. \<forall>k. wire_key (fst c) = Some k \<longrightarrow> k = wire (op_Key op))"
  shows "\<exists>cs. calls (snd (run_operations body ops b)) = calls b @ cs \<and>
          (\<forall>c \<in> set cs. \<forall>k. wire_key (fst c) = Some k \<longrightarrow> (\<exists>op \<in> set ops. k = wire (op_Key op)))"
proof (induction ops arbitrary: b)
  case Nil
  show ?case by simp
next
  case (Cons op ops)
  from body[of op b] obtain cs1 where
    1: "calls (snd (body op b)) = calls b @ cs1"
       "\<forall>c \<in> set cs1. \<forall>k. wire_key (fst c) = Some k \<longrightarrow> k = wire (op_Key op)" by blast
  from Cons.IH[of "snd (body op b)"] obtain cs2 where
    2: "calls (snd (run_operations body ops (snd (body op b)))) = calls (snd (body op b)) @ cs2"
       "\<forall>c \<in> set cs2. \<forall>k. wire_key (fst c) = Some k \<longrightarrow> (\<exists>op \<in> set ops. k = wire (op_Key op))"
    by blast
  have "calls (snd (run_operations body (op # ops) b)) = calls b @ (cs1 @ cs2)"
    using 1(1) 2(1) by (simp add: run_operations_snd)
  moreover have "\<forall>c \<in> set (cs1 @ cs2). \<forall>k. wire_key (fst c) = Some k \<longrightarrow>
                   (\<exists>op' \<in> set (op # ops). k = wire (op_Key op'))"
    using 1(2) 2(2) by auto
  ultimately show ?case by blast
qed

lemma BatchOperations_wire:
  "\<exists>cs. calls (snd (BatchOperations g ops b)) = calls b @ cs \<and>
        (\<forall>c \<in> set cs. \<forall>k. wire_key (fst c) = Some k \<longrightarrow>
           (\<exists>op \<in> set ops. k = TiKVWebKeyPrefix @ op_Key op))"
proof -
  have body: "\<exists>cs. calls (snd (BatchOperation g op b)) = calls b @ cs \<and>
                (\<forall>c \<in> set cs. \<forall>k. wire_key (fst c) = Some k \<longrightarrow> k = makeKey (op_Key op))"
    for op b
    using rawkv_operation_wire[of makeKey op b] txn_operation_wire[of makeKey op b]
    by (auto simp: BatchOperation_def)
  from run_operations_wire[of "BatchOperation g" makeKey ops b, OF body]
  show ?thesis
    by (simp add: BatchOperations_def split_beta makeKey_def)
qed

lemma handleBatchOperations_wire:
  "\<exists>cs. calls (snd (handleBatchOperations g ops b)) = calls b @ cs \<and>
        (\<forall>c \<in> set cs. \<forall>k. wire_key (fst c) = Some k \<longrightarrow> (\<exists>op \<in> set ops. k = op_Key op))"
proof -
  have body: "\<exists>cs. calls (snd (handleBatchOperation g op b)) = calls b @ cs \<and>
                (\<forall>c \<in> set cs. \<forall>k. wire_key (fst c) = Some k \<longrightarrow> k = prefixedKey (op_Key op))"
    for op b
    using rawkv_operation_wire[of prefixedKey op b] txn_operation_wire[of prefixedKey op b]
    by (auto simp: handleBatchOperation_def)
  from run_operations_wire[of "handleBatchOperation g" prefixedKey ops b, OF body]
  show ?thesis
    by (simp add: handleBatchOperations_def split_beta prefixedKey_def)
qed

lemma stage_operations_wire:
  "\<exists>cs. calls (snd (stage_operations t ops b)) = calls b @ cs \<and>
        (\<forall>c \<in> set cs. \<forall>k. wire_key (fst c) = Some k \<longrightarrow>
           (\<exists>op \<in> set ops. k = TiKVWebKeyPrefix @ aop_Key op))"
proof (induction ops arbitrary: b)
  case Nil
  show ?case by simp
next
  case (Cons op ops)
  show ?case
    using Cons.IH[of b]
      Cons.IH[of "snd (TxnKv_Set t (aop_Key op) (aop_Value op) b)"]
      Cons.IH[of "snd (TxnKv_Delete t (aop_Key op) b)"]
    by (auto simp: TxnKv_Set_def TxnKv_Delete_def TxnKv_Rollback_def txn_Set_def txn_Delete_def
        txn_Rollback_def logged_def consume_def makeKey_def)
qed

lemma range_prefixed:
  "P @ s \<le> k \<Longrightarrow> k < P @ e \<Longrightarrow> \<exists>k'. k = P @ (k' :: string)"
proof (induction P arbitrary: k)
  case Nil
  show ?case by simp
next
  case (Cons a P)
  from Cons.prems(1) obtain c k0 where k: "k = c # k0" by (cases k) auto
  from Cons.prems k have "c = a" "P @ s \<le> k0" "k0 < P @ e" by (auto split: if_splits)
  with Cons.IH[of k0] k show ?case by auto
qed

lemma strip_prefix_unwrap:
  assumes "\<forall>p \<in> set found. in_range (makeKey start) (makeKey end) p"
  shows "\<forall>kv \<in> set (strip_prefix found). (TiKVWebKeyPrefix @ Key kv, Value kv) \<in> set found"
proof
  fix kv assume "kv \<in> set (strip_prefix found)"
  then obtain p where p: "p \<in> set found" "Key kv = drop (length TiKVWebKeyPrefix) (fst p)"
    "Value kv = snd p"
    by (auto simp: strip_prefix_def)
  from assms p(1) have "TiKVWebKeyPrefix @ start \<le> fst p" "fst p < TiKVWebKeyPrefix @ end"
    by (auto simp: in_range_def makeKey_def)
  from range_prefixed[OF this] obtain k' where "fst p = TiKVWebKeyPrefix @ k'" by blast
  with p(2,3) have "p = (TiKVWebKeyPrefix @ Key kv, Value kv)" by (cases p) simp
  with p(1) show "(TiKVWebKeyPrefix @ Key kv, Value kv) \<in> set found" by simp
qed

subsection \<open>\<open>CreateKV\<close> and \<open>GetKV\<close>\<close>

text \<open>On a backend that does not fail, a \<open>CreateKV\<close> that answers success is followed by
  a \<open>GetKV\<close> of the same key and mode that answers the value, in both modes.\<close>

lemma map_of_kv_put: "map_of (kv_put k v xs) k = Some v"
proof -
  have "map_of (filter (\<lambda>p. fst p < k) xs) k = None"
    by (auto simp: map_of_eq_None_iff)
  then show ?thesis by (simp add: kv_put_def map_add_def)
qed

lemma CreateKV_GetKV_roundtrip:
  assumes p: "plan b = []" and ok: "Success (fst (CreateKV k v ty g b))"
  shows "fst (GetKV k ty g (snd (CreateKV k v ty g b)))
           = reply 200 True ''Key retrieved successfully'' (Str v) []"
proof -
  from ok have kv: "k \<noteq> []" "v \<noteq> []" and ty: "ty = ''rawkv'' \<or> ty = ''txn''"
    by (auto simp: CreateKV_def reply_def split: if_splits)
  from ty show ?thesis
  proof
    assume r: "ty = ''rawkv''"
    with ok kv have c: "dao_rawKvClient g" by (auto simp: CreateKV_def reply_def split: if_splits)
    define b1 where "b1 = snd (RawKv_Get k b)"
    define b2 where "b2 = snd (RawKv_Put k v b1)"
    from p have g: "fst (RawKv_Get k b) \<noteq> Inl e" "plan b1 = []" "raw b1 = raw b" for e
      by (auto simp: b1_def RawKv_Get_def raw_Get_def logged_def consume_def fault_def)
    from g have pt: "RawKv_Put k v b1 = (None, b2)" "plan b2 = []"
      "raw b2 = kv_put (makeKey k) v (raw b)"
      by (simp_all add: b2_def RawKv_Put_def raw_Put_def logged_def consume_def fault_def)
    from ok r kv c g pt have s: "snd (CreateKV k v ty g b) = b2"
      by (auto simp: CreateKV_def b1_def reply_def split: prod.splits sum.splits if_splits option.splits)
    from pt kv have "RawKv_Get k b2 = (Inr v, logged (RawGet (makeKey k)) True (consume b2))"
      by (simp add: RawKv_Get_def raw_Get_def fault_def map_of_kv_put)
    with r kv c s show ?thesis by (simp add: GetKV_def)
  next
    assume t: "ty = ''txn''"
    with ok kv have c: "dao_txnKvClient g" by (auto simp: CreateKV_def reply_def split: if_splits)
    define n where "n = next_tid b"
    define mk where "mk = makeKey k"
    define b1 where "b1 = snd (TxnKv_Begin b)"
    from p have bg: "TxnKv_Begin b = (Inr n, b1)"
      and b1: "plan b1 = []" "txnkv b1 = txnkv b" "membuf b1 n = []" "next_tid b1 = Suc n"
      by (simp_all add: b1_def n_def TxnKv_Begin_def txn_Begin_def logged_def consume_def fault_def)
    define r2 where "r2 = fst (TxnKv_Get n k b1)"
    define b2 where "b2 = snd (TxnKv_Get n k b1)"
    have gt: "TxnKv_Get n k b1 = (r2, b2)" by (simp add: r2_def b2_def)
    from b1 have b2: "plan b2 = []" "txnkv b2 = txnkv b" "membuf b2 n = []" "next_tid b2 = Suc n"
      by (simp_all add: b2_def TxnKv_Get_def txn_Get_def logged_def consume_def fault_def
          split: option.splits)
    define b3 where "b3 = snd (TxnKv_Set n k v b2)"
    from b2 have st: "TxnKv_Set n k v b2 = (None, b3)"
      and b3: "plan b3 = []" "txnkv b3 = txnkv b" "membuf b3 n = [(mk, Some v)]" "next_tid b3 = Suc n"
      by (simp_all add: b3_def mk_def TxnKv_Set_def txn_Set_def logged_def consume_def fault_def)
    define b4 where "b4 = snd (TxnKv_Commit n b3)"
    from b3 have cm: "TxnKv_Commit n b3 = (None, b4)"
      and b4: "plan b4 = []" "txnkv b4 = kv_put mk v (txnkv b)" "next_tid b4 = Suc n"
      by (simp_all add: b4_def TxnKv_Commit_def txn_Commit_def logged_def consume_def fault_def
          stage_def)
    from ok t kv c bg gt st cm have s: "snd (CreateKV k v ty g b) = b4"
      by (simp add: CreateKV_def reply_def TxnKv_Rollback_def txn_Rollback_def split: if_splits)
    define b5 where "b5 = snd (TxnKv_Begin b4)"
    from b4 have bg': "TxnKv_Begin b4 = (Inr (Suc n), b5)"
      and b5: "plan b5 = []" "snap b5 (Suc n) = kv_put mk v (txnkv b)" "membuf b5 (Suc n) = []"
      by (simp_all add: b5_def TxnKv_Begin_def txn_Begin_def logged_def consume_def fault_def)
    define b6 where "b6 = snd (TxnKv_Get (Suc n) k b5)"
    from b5 have gt': "TxnKv_Get (Suc n) k b5 = (Inr v, b6)" and b6: "plan b6 = []"
      by (simp_all add: b6_def mk_def TxnKv_Get_def txn_Get_def logged_def consume_def fault_def
          view_def map_of_kv_put)
    define b7 where "b7 = snd (TxnKv_Commit (Suc n) b6)"
    from b6 have cm': "TxnKv_Commit (Suc n) b6 = (None, b7)"
      by (simp_all add: b7_def TxnKv_Commit_def txn_Commit_def logged_def consume_def fault_def)
    from t kv c s bg' gt' cm' show ?thesis by (simp add: GetKV_def)
  qed
qed

section \<open>The handlers of \<open>main.go\<close> against their siblings\<close>

text \<open>
  C1 describes \<open>AtomicTransaction\<close> of \<open>handlers.go\<close> (lemmas \<open>AtomicTransaction_any\<close> and
  \<open>AtomicTransaction_total\<close>); the handler that \<open>main.go\<close> routes
  \<open>POST /api/kv/transaction\<close> to does not do it. On a request with a put of an empty
  value \<open>handleAtomicTransaction\<close> makes no backend call and answers success, where
  \<open>AtomicTransaction\<close> opens a transaction, refuses the put and rolls back.
\<close>

theorem handleAtomicTransaction_ignores_request:
  "handleAtomicTransaction put_empty g_up b_empty
     = (reply 200 True ''Atomic transaction successful'' NoData [], b_empty) \<and>
   calls (snd (handleAtomicTransaction put_empty g_up b_empty)) = [] \<and>
   fst (AtomicTransaction put_empty g_up b_empty)
     = reply 400 False ''Value is required for put operation'' NoData [] \<and>
   calls (snd (AtomicTransaction put_empty g_up b_empty))
     = [(TxnBegin 0, True), (TxnRollback 0, True)]"
  by (simp add: handleAtomicTransaction_def AtomicTransaction_def put_empty_def g_up_def b_empty_def
        backend_defs)

text \<open>
  C3 holds of \<open>GetKV\<close> of \<open>handlers.go\<close> (lemma \<open>CreateKV_GetKV_roundtrip\<close>); the
  handler that \<open>main.go\<close> routes
  \<open>GET /api/kv/:key\<close> to does not read the store. After a successful direct-mode put of
  \<open>v\<close> under \<open>k\<close>, \<open>handleGetKV\<close> answers with the empty value, where \<open>CreateKV\<close> followed
  by \<open>GetKV\<close> answers \<open>v\<close>.
\<close>

theorem handleGetKV_ignores_store:
  "Success (fst (handleCreateKV ''k'' ''v'' ''rawkv'' g_up b_empty)) \<and>
   raw (snd (handleCreateKV ''k'' ''v'' ''rawkv'' g_up b_empty)) = [(''k'', ''v'')] \<and>
   fst (handleGetKV ''k'' g_up (snd (handleCreateKV ''k'' ''v'' ''rawkv'' g_up b_empty)))
     = reply 200 True ''Get key successful'' (KV \<lparr>Key = ''k'', Value = []\<rparr>) [] \<and>
   fst (GetKV ''k'' ''rawkv'' g_up (snd (CreateKV ''k'' ''v'' ''rawkv'' g_up b_empty)))
     = reply 200 True ''Key retrieved successfully'' (Str ''v'') []"
  by (simp add: handleCreateKV_def handleGetKV_def GetKV_def CreateKV_def g_up_def b_empty_def
        backend_defs prefixedKey_def makeKey_def TiKVWebKeyPrefix_def kv_put_def reply_def)

text \<open>
  C8 holds of the DAO layer, whose \<open>makeKey\<close> prepends \<open>tikv_web_\<close> (lemmas
  \<open>BatchOperations_wire\<close>, \<open>stage_operations_wire\<close> and \<open>strip_prefix_unwrap\<close>); the handlers of
  \<open>main.go\<close> go to the client directly with \<open>prefixedKey\<close>, which returns the key as it
  is. The same batch sends the bare key \<open>a\<close> through \<open>handleBatchOperations\<close> and the
  key \<open>tikv_web_a\<close> through \<open>BatchOperations\<close>.
\<close>

theorem prefixedKey_sends_bare_key:
  "calls (snd (handleBatchOperations g_up put_a b_empty)) = [(RawPut ''a'' ''v'', True)] \<and>
   makeKey ''a'' = ''tikv_web_a'' \<and>
   calls (snd (BatchOperations g_up put_a b_empty)) = [(RawPut ''tikv_web_a'' ''v'', True)]"
  by (simp add: handleBatchOperations_def BatchOperations_def put_a_def run_operations.simps
        handleBatchOperation_def BatchOperation_def rawkv_operation_def operationType_def
        g_up_def b_empty_def backend_defs prefixedKey_def makeKey_def TiKVWebKeyPrefix_def)




section \<open>Scans\<close>

lemma go_int_id: "- (2 ^ 63) \<le> x \<Longrightarrow> x < 2 ^ 63 \<Longrightarrow> go_int x = x"
  by (simp add: go_int_def)

lemma go_div_nonneg: "0 \<le> a \<Longrightarrow> 0 < b \<Longrightarrow> go_div a b = a div b"
  by (simp add: go_div_def)

lemma ceiling_pages:
  fixes n l :: int
  assumes "0 < l"
  shows "(n + l - 1) div l = \<lceil>(of_int n :: real) / of_int l\<rceil>"
proof -
  define q r where "q = n div l" and "r = n mod l"
  have n: "n = l * q + r" and r: "0 \<le> r" "r < l"
    using assms by (simp_all add: q_def r_def)
  have "- ((- n) div l) = (n + l - 1) div l"
  proof (cases "r = 0")
    case True
    have "(- n) div l = - q"
      using n True assms by (intro int_div_pos_eq[where r = 0]) simp_all
    moreover have "(n + l - 1) div l = q"
      using n True assms by (intro int_div_pos_eq[where r = "l - 1"]) simp_all
    ultimately show ?thesis by simp
  next
    case False
    have "(- n) div l = - q - 1"
      using n r False assms by (intro int_div_pos_eq[where r = "l - r"]) (simp_all add: algebra_simps)
    moreover have "(n + l - 1) div l = q + 1"
      using n r False assms by (intro int_div_pos_eq[where r = "r - 1"]) (simp_all add: algebra_simps)
    ultimately show ?thesis by simp
  qed
  then show ?thesis by (simp add: ceiling_divide_eq_div)
qed

lemma index_loop_slice:
  "0 \<le> i \<Longrightarrow> nat i + n \<le> length found \<Longrightarrow>
   index_loop found i n = Some (map pair_of (take n (drop (nat i) found)))"
proof (induction n arbitrary: i)
  case 0
  then show ?case by simp
next
  case (Suc n)
  then have "index_loop found (i + 1) n = Some (map pair_of (take n (drop (nat (i + 1)) found)))"
    by (intro Suc.IH) auto
  moreover from Suc.prems have "nat i < length found" by simp
  then have "drop (nat i) found = found ! nat i # drop (Suc (nat i)) found"
    by (simp add: Cons_nth_drop_Suc)
  moreover from Suc.prems have "nat (i + 1) = Suc (nat i)" by simp
  ultimately show ?case using Suc.prems by simp
qed

lemma walk_calls:
  "walk t skipCount limit items kvPairs cc tc b = (r, b1) \<Longrightarrow>
   \<exists>cs. calls b1 = calls b @ cs \<and> (\<forall>c \<in> set cs. fst c = TxnIterNext t)"
proof (induction items arbitrary: kvPairs cc tc b)
  case Nil
  then show ?case by simp
next
  case (Cons item items)
  let ?taken = "cc \<ge> skipCount \<and> int (length kvPairs) < limit"
  let ?kv = "if ?taken then kvPairs @ [pair_of item] else kvPairs"
  let ?cc = "if ?taken \<or> cc < skipCount then cc + 1 else cc"
  show ?case
  proof (cases "int (length ?kv) \<ge> limit")
    case True
    with Cons.prems have "b1 = b" by (simp add: Let_def)
    then show ?thesis by simp
  next
    case False
    show ?thesis
    proof (cases "fault b")
      case True
      with False Cons.prems have "b1 = logged (TxnIterNext t) False (consume b)"
        by (simp add: Let_def iter_Next_def)
      then show ?thesis by (simp add: logged_def consume_def)
    next
      case nf: False
      with False Cons.prems
      have "walk t skipCount limit items ?kv ?cc (tc + 1) (logged (TxnIterNext t) True (consume b)) = (r, b1)"
        by (simp add: Let_def iter_Next_def)
      from Cons.IH[OF this] show ?thesis by (auto simp: logged_def consume_def)
    qed
  qed
qed

lemma walk_window:
  assumes "plan b = []" "int (length kvPairs) < limit"
  shows "\<exists>b1. walk t skipCount limit items kvPairs cc tc b =
           ((kvPairs @ map pair_of (take (nat (limit - int (length kvPairs))) (drop (nat (skipCount - cc)) items)),
             tc + int (min (length items) (nat (skipCount - cc) + nat (limit - int (length kvPairs))))),
            b1)"
  using assms
proof (induction items arbitrary: kvPairs cc tc b)
  case Nil
  then show ?case by simp
next
  case (Cons item items)
  have nf: "\<not> fault b" using Cons.prems by (simp add: fault_def)
  let ?b = "logged (TxnIterNext t) True (consume b)"
  have pl: "plan ?b = []" using Cons.prems by (simp add: logged_def consume_def)
  show ?case
  proof (cases "cc < skipCount")
    case True
    then have d: "nat (skipCount - cc) = Suc (nat (skipCount - (cc + 1)))" by simp
    from Cons.IH[OF pl Cons.prems(2), of "cc + 1" "tc + 1"] True Cons.prems nf
    show ?thesis by (auto simp: Let_def iter_Next_def d)
  next
    case False
    then have d: "nat (skipCount - cc) = 0" by simp
    show ?thesis
    proof (cases "int (length kvPairs) + 1 \<ge> limit")
      case True
      with Cons.prems have "nat (limit - int (length kvPairs)) = 1" by simp
      with True False Cons.prems show ?thesis by (simp add: Let_def d)
    next
      case f2: False
      then have l: "int (length (kvPairs @ [pair_of item])) < limit" by simp
      from f2 have m: "nat (limit - int (length kvPairs)) = Suc (nat (limit - int (length (kvPairs @ [pair_of item]))))"
        by simp
      from False have d1: "nat (skipCount - (cc + 1)) = 0" by simp
      from Cons.IH[OF pl l, of "cc + 1" "tc + 1"] f2 False Cons.prems nf
      show ?thesis by (auto simp: Let_def iter_Next_def d m d1 simp del: length_append)
    qed
  qed
qed


lemma take_drop_window:
  "take n (drop d (take (d + n) xs)) = take n (drop d xs)"
  by (simp add: drop_take)

text \<open>
  \<open>scanTxnKVs\<close> never commits: for every input and every pattern of backend failures,
  the calls it makes contain no commit, and they are none at all (no client), the one
  failed \<open>Begin\<close>, or a successful \<open>Begin\<close> first and the \<open>Rollback\<close> of that transaction
  last.
\<close>

lemma scanTxnKVs_calls:
  assumes "scanTxnKVs prefix page limit g b = (r, b1)"
  shows "\<exists>cs. calls b1 = calls b @ cs \<and> (\<forall>c \<in> set cs. \<not> is_commit (fst c)) \<and>
           (cs = [] \<or> cs = [(TxnBegin (next_tid b), False)] \<or>
            (hd cs = (TxnBegin (next_tid b), True) \<and> last cs = (TxnRollback (next_tid b), True)))"
proof (cases "txnClient g = None")
  case True
  with assms show ?thesis by (simp add: scanTxnKVs_def)
next
  case client: False
  show ?thesis
  proof (cases "fault b")
    case True
    with assms client show ?thesis
      by (auto simp: scanTxnKVs_def txn_Begin_def logged_def consume_def)
  next
    case nf: False
    let ?t = "next_tid b"
    let ?b1 = "(logged (TxnBegin ?t) True (consume b))
                 \<lparr>next_tid := Suc ?t, snap := (snap b)(?t := txnkv b), membuf := (membuf b)(?t := [])\<rparr>"
    have bg: "txn_Begin b = (Inr ?t, ?b1)" using nf by (simp add: txn_Begin_def)
    have c1: "calls ?b1 = calls b @ [(TxnBegin ?t, True)]" by (simp add: logged_def consume_def)
    show ?thesis
    proof (cases "fault ?b1")
      case True
      with assms client bg have "b1 = txn_Rollback ?t (logged (TxnIter ?t (fst (prefixedRange prefix)) (snd (prefixedRange prefix))) False (consume ?b1))"
        by (auto simp: scanTxnKVs_def txn_Iter_def)
      then have "calls b1 = calls b @ [(TxnBegin ?t, True), (TxnIter ?t (fst (prefixedRange prefix)) (snd (prefixedRange prefix)), False), (TxnRollback ?t, True)]"
        by (simp add: txn_Rollback_def logged_def consume_def)
      then show ?thesis by simp
    next
      case nf2: False
      let ?b2 = "logged (TxnIter ?t (fst (prefixedRange prefix)) (snd (prefixedRange prefix))) True (consume ?b1)"
      let ?items = "filter (in_range (fst (prefixedRange prefix)) (snd (prefixedRange prefix))) (view ?b1 ?t)"
      have it: "txn_Iter ?t (fst (prefixedRange prefix)) (snd (prefixedRange prefix)) ?b1 = (Inr ?items, ?b2)"
        using nf2 by (simp add: txn_Iter_def)
      obtain w b3 where w: "walk ?t (go_int (go_int (page - 1) * limit)) limit ?items [] 0 0 ?b2 = (w, b3)"
        by (cases "walk ?t (go_int (go_int (page - 1) * limit)) limit ?items [] 0 0 ?b2")
      from walk_calls[OF w] obtain ws where ws: "calls b3 = calls ?b2 @ ws"
        "\<forall>c \<in> set ws. fst c = TxnIterNext ?t" by blast
      from assms client bg it w have "b1 = txn_Rollback ?t b3"
        by (simp add: scanTxnKVs_def)
      with ws have "calls b1 = calls b @ ((TxnBegin ?t, True) # (TxnIter ?t (fst (prefixedRange prefix)) (snd (prefixedRange prefix)), True) # ws @ [(TxnRollback ?t, True)])"
        by (simp add: txn_Rollback_def logged_def consume_def)
      moreover have "\<forall>c \<in> set ws. \<not> is_commit (fst c)" using ws(2) by simp
      ultimately show ?thesis by (intro exI[of _ "(TxnBegin ?t, True) # (TxnIter ?t (fst (prefixedRange prefix)) (snd (prefixedRange prefix)), True) # ws @ [(TxnRollback ?t, True)]"]) auto
    qed
  qed
qed


lemma scanRawKVs_window:
  assumes "1 \<le> page" "1 \<le> limit" "page * limit + limit < 2 ^ 63"
    and "rawKvClient g" "RawKVClient g \<noteq> None" "\<not> fault b"
    and "found = take (nat ((page - 1) * limit + limit))
                   (filter (in_range (fst (prefixedRange prefix)) (snd (prefixedRange prefix))) (raw b))"
  shows "scanRawKVs prefix page limit g b =
           (Inr (map pair_of (take (nat limit) (drop (nat ((page - 1) * limit)) found)),
                 int (length found)),
            logged (RawScan (fst (prefixedRange prefix)) (snd (prefixedRange prefix)) ((page - 1) * limit + limit))
              True (consume b))"
proof -
  define offset where "offset = (page - 1) * limit"
  have pl: "0 \<le> offset" using assms by (simp add: offset_def)
  have "offset + limit = page * limit" by (simp add: offset_def algebra_simps)
  with assms have small: "offset + limit < 2 ^ 63" "offset < 2 ^ 63" by linarith+
  have p1: "go_int (page - 1) = page - 1"
  proof (rule go_int_id)
    show "- (2 ^ 63) \<le> page - 1" using assms by simp
    have "page - 1 \<le> offset" using assms by (simp add: offset_def mult_le_cancel_left1)
    with small show "page - 1 < 2 ^ 63" by linarith
  qed
  have off: "go_int (go_int (page - 1) * limit) = offset"
    unfolding p1 offset_def[symmetric] using pl small by (intro go_int_id) linarith+
  have lim: "go_int (offset + limit) = offset + limit"
    using pl small assms by (intro go_int_id) linarith+
  have sc: "raw_Scan (fst (prefixedRange prefix)) (snd (prefixedRange prefix)) (offset + limit) b
        = (Inr found,
           logged (RawScan (fst (prefixedRange prefix)) (snd (prefixedRange prefix)) (offset + limit))
             True (consume b))"
    using assms by (simp add: raw_Scan_def offset_def)
  have len: "int (length found) \<le> offset + limit"
    using pl assms(2) unfolding assms(7) offset_def[symmetric] by auto
  have body: "scanRawKVs prefix page limit g b =
      (if offset > int (length found) then (Inr ([], int (length found)),
           logged (RawScan (fst (prefixedRange prefix)) (snd (prefixedRange prefix)) (offset + limit)) True (consume b))
       else (case index_loop found offset
                    (nat ((if offset + limit > int (length found) then int (length found) else offset + limit) - offset)) of
               None \<Rightarrow> (Inl Panicked, logged (RawScan (fst (prefixedRange prefix)) (snd (prefixedRange prefix)) (offset + limit)) True (consume b))
             | Some kvPairs \<Rightarrow> (Inr (kvPairs, int (length found)),
                  logged (RawScan (fst (prefixedRange prefix)) (snd (prefixedRange prefix)) (offset + limit)) True (consume b))))"
    using assms(4,5) by (auto simp: scanRawKVs_def off lim sc Let_def)
  show ?thesis
  proof (cases "offset > int (length found)")
    case True
    then have "drop (nat offset) found = []" by simp
    with True show ?thesis unfolding body offset_def[symmetric] by simp
  next
    case False
    define end1 where "end1 = (if offset + limit > int (length found) then int (length found) else offset + limit)"
    have n: "nat offset + nat (end1 - offset) \<le> length found"
      using False pl assms(2) by (auto simp: end1_def)
    have "take (nat (end1 - offset)) (drop (nat offset) found)
            = take (nat limit) (drop (nat offset) found)"
    proof (cases "offset + limit > int (length found)")
      case True
      then have "length (drop (nat offset) found) \<le> nat (end1 - offset)"
        and "length (drop (nat offset) found) \<le> nat limit" using pl False by (auto simp: end1_def)
      then show ?thesis by simp
    next
      case False
      then show ?thesis by (simp add: end1_def)
    qed
    with index_loop_slice[OF pl n]
    have "index_loop found offset (nat (end1 - offset))
            = Some (map pair_of (take (nat limit) (drop (nat offset) found)))" by simp
    with False show ?thesis unfolding body offset_def[symmetric] end1_def[symmetric] by simp
  qed
qed


lemma scanTxnKVs_window:
  assumes "1 \<le> page" "1 \<le> limit" "page * limit + limit < 2 ^ 63"
    and "txnClient g \<noteq> None" "plan b = []"
    and "found = take (nat ((page - 1) * limit + limit))
                   (filter (in_range (fst (prefixedRange prefix)) (snd (prefixedRange prefix))) (txnkv b))"
  shows "fst (scanTxnKVs prefix page limit g b) =
           Inr (map pair_of (take (nat limit) (drop (nat ((page - 1) * limit)) found)),
                int (length found))"
proof -
  define offset where "offset = (page - 1) * limit"
  define items where
    "items = filter (in_range (fst (prefixedRange prefix)) (snd (prefixedRange prefix))) (txnkv b)"
  have pl: "0 \<le> offset" using assms by (simp add: offset_def)
  have "offset + limit = page * limit" by (simp add: offset_def algebra_simps)
  with assms have small: "offset + limit < 2 ^ 63" "offset < 2 ^ 63" by linarith+
  have p1: "go_int (page - 1) = page - 1"
  proof (rule go_int_id)
    show "- (2 ^ 63) \<le> page - 1" using assms by simp
    have "page - 1 \<le> offset" using assms by (simp add: offset_def mult_le_cancel_left1)
    with small show "page - 1 < 2 ^ 63" by linarith
  qed
  have off: "go_int (go_int (page - 1) * limit) = offset"
    unfolding p1 offset_def[symmetric] using pl small by (intro go_int_id) linarith+
  let ?t = "next_tid b"
  let ?b1 = "(logged (TxnBegin ?t) True (consume b))
               \<lparr>next_tid := Suc ?t, snap := (snap b)(?t := txnkv b), membuf := (membuf b)(?t := [])\<rparr>"
  have nf: "\<not> fault b" using assms by (simp add: fault_def)
  have bg: "txn_Begin b = (Inr ?t, ?b1)" using nf by (simp add: txn_Begin_def)
  have nf1: "\<not> fault ?b1" using assms by (simp add: fault_def logged_def consume_def)
  let ?b2 = "logged (TxnIter ?t (fst (prefixedRange prefix)) (snd (prefixedRange prefix))) True (consume ?b1)"
  have v: "view ?b1 ?t = txnkv b" by (simp add: view_def logged_def consume_def)
  have it: "txn_Iter ?t (fst (prefixedRange prefix)) (snd (prefixedRange prefix)) ?b1 = (Inr items, ?b2)"
    using nf1 v by (simp add: txn_Iter_def items_def)
  have p2: "plan ?b2 = []" using assms by (simp add: logged_def consume_def)
  have l0: "int (length ([] :: KeyValuePair list)) < limit" using assms by simp
  from walk_window[OF p2 l0, of ?t offset items 0 0]
  obtain b3 where w: "walk ?t offset limit items [] 0 0 ?b2 =
      ((map pair_of (take (nat limit) (drop (nat offset) items)),
        int (min (length items) (nat offset + nat limit))), b3)"
    by auto
  have f: "found = take (nat offset + nat limit) items"
    using assms(2,6) pl by (simp add: items_def offset_def nat_add_distrib)
  have "take (nat limit) (drop (nat offset) found) = take (nat limit) (drop (nat offset) items)"
    unfolding f by (rule take_drop_window)
  moreover have "length found = min (length items) (nat offset + nat limit)"
    unfolding f by simp
  ultimately show ?thesis
    using assms(4) bg it w by (auto simp: scanTxnKVs_def off offset_def[symmetric])
qed

text \<open>
  C5, amended: for every prefix, every page number from 1 and every page size from 1 to
  100 whose product, with one more page, stays below \<open>2 ^ 63\<close>, on a backend that does
  not fail and with the client of the mode present, \<open>handleScanKVs\<close> answers with the
  pairs \<open>[offset, offset + pageSize)\<close> of the first \<open>offset + pageSize\<close> pairs of the
  range in key order, where \<open>offset = (pageNumber - 1) * pageSize\<close>, cut to what is
  there; the total is the number of those first pairs that exist, the number of pages
  the ceiling of the total over the page size, and the page is empty when the offset is
  not below the total. In direct mode the one call to the backend is the scan for
  \<open>offset + pageSize\<close> pairs.
\<close>

theorem page_window:
  assumes "1 \<le> page" "1 \<le> limit" "limit \<le> 100" "page * limit + limit < 2 ^ 63"
    and "plan b = []"
    and "kvType = ''rawkv'' \<and> rawKvClient g \<and> RawKVClient g \<noteq> None \<and> store = raw b \<or>
         kvType = ''txn'' \<and> txnClient g \<noteq> None \<and> store = txnkv b"
    and "offset = (page - 1) * limit"
    and "found = take (nat (offset + limit))
                   (filter (in_range (fst (prefixedRange prefix)) (snd (prefixedRange prefix))) store)"
  shows "fst (handleScanKVs prefix (Some page) (Some limit) kvType g b) =
           reply 200 True ''Scan keys successful''
             (Paginated (map pair_of (take (nat limit) (drop (nat offset) found)))
                (int (length found)) page limit \<lceil>(of_int (int (length found)) :: real) / of_int limit\<rceil>) [] \<and>
         (int (length found) \<le> offset \<longrightarrow> take (nat limit) (drop (nat offset) found) = []) \<and>
         (kvType = ''rawkv'' \<longrightarrow>
            calls (snd (handleScanKVs prefix (Some page) (Some limit) kvType g b))
              = calls b @ [(RawScan (fst (prefixedRange prefix)) (snd (prefixedRange prefix))
                              (offset + limit), True)])"
proof -
  have nf: "\<not> fault b" using assms(5) by (simp add: fault_def)
  have pos: "0 < limit" "0 < page" using assms by simp_all
  have ol: "0 \<le> offset" using assms(1,2,7) by simp
  have len: "int (length found) \<le> offset + limit"
    using ol assms(2) unfolding assms(8) by auto
  have "int (length found) + limit - 1 < 2 ^ 63"
  proof -
    have "offset + limit = page * limit" by (simp add: assms(7) algebra_simps)
    with len assms(4) show ?thesis by linarith
  qed
  then have g1: "go_int (int (length found) + limit - 1) = int (length found) + limit - 1"
    using pos by (intro go_int_id) linarith+
  have tp: "go_div (go_int (int (length found) + limit - 1)) limit
              = \<lceil>(of_int (int (length found)) :: real) / of_int limit\<rceil>"
    unfolding g1 using pos by (simp add: go_div_nonneg ceiling_pages)
  from assms(6) show ?thesis
  proof
    assume a: "kvType = ''rawkv'' \<and> rawKvClient g \<and> RawKVClient g \<noteq> None \<and> store = raw b"
    then have f: "found = take (nat ((page - 1) * limit + limit))
        (filter (in_range (fst (prefixedRange prefix)) (snd (prefixedRange prefix))) (raw b))"
      using assms(7,8) by simp
    from a have c: "rawKvClient g" "RawKVClient g \<noteq> None" by simp_all
    note w = scanRawKVs_window[OF assms(1,2,4) c nf f]
    show ?thesis using a pos tp
      by (simp add: handleScanKVs_def w assms(7) logged_def consume_def)
  next
    assume a: "kvType = ''txn'' \<and> txnClient g \<noteq> None \<and> store = txnkv b"
    then have f: "found = take (nat ((page - 1) * limit + limit))
        (filter (in_range (fst (prefixedRange prefix)) (snd (prefixedRange prefix))) (txnkv b))"
      using assms(7,8) by simp
    from a have c: "txnClient g \<noteq> None" by simp
    note w = scanTxnKVs_window[OF assms(1,2,4) c assms(5) f]
    obtain r b1 where s: "scanTxnKVs prefix page limit g b = (r, b1)"
      by (cases "scanTxnKVs prefix page limit g b")
    with w have r: "r = Inr (map pair_of (take (nat limit) (drop (nat ((page - 1) * limit)) found)),
                int (length found))" by simp
    show ?thesis using a pos tp s r
      by (auto simp: handleScanKVs_def assms(7))
  qed
qed




text \<open>C5, amended, on the second page of size two of three pairs.\<close>

theorem page_window_witness:
  "fst (handleScanKVs [] (Some 2) (Some 2) ''txn'' g_up b_pair) =
     reply 200 True ''Scan keys successful''
       (Paginated [\<lparr>Key = ''c'', Value = ''3''\<rparr>] 3 2 2 2) []"
proof -
  have f: "[(''a'', ''1''), (''b'', ''2''), (''c'', ''3'')] =
        take (nat ((2 - 1) * 2 + (2::int)))
          (filter (in_range (fst (prefixedRange [])) (snd (prefixedRange []))) (txnkv b_pair))"
    by (simp add: b_pair_def b_empty_def prefixedRange_def in_range_def)
  have c: "''txn'' = ''rawkv'' \<and> rawKvClient g_up \<and> RawKVClient g_up \<noteq> None \<and> txnkv b_pair = raw b_pair \<or>
         ''txn'' = ''txn'' \<and> txnClient g_up \<noteq> None \<and> txnkv b_pair = txnkv b_pair"
    by (simp add: g_up_def)
  have p: "plan b_pair = []" by (simp add: b_pair_def b_empty_def)
  from page_window[of 2 2 b_pair "''txn''" g_up "txnkv b_pair" "(2 - 1) * 2"
      "[(''a'', ''1''), (''b'', ''2''), (''c'', ''3'')]" "[]", OF _ _ _ _ p c refl f]
  show ?thesis by (simp add: pair_of_def)
qed


text \<open>
  C5, as stated, fails: at page number \<open>4611686018427387905\<close> and page size 4 the offset
  \<open>(pageNumber - 1) * pageSize\<close> is \<open>2 ^ 64\<close>, far beyond the one pair of the store, and
  the page is not empty: the 64-bit product wraps to 0 and the page holds the first pair.
\<close>

theorem page_offset_wraps:
  "(far_page - 1) * 4 = 2 ^ 64 \<and> length (raw b_pair) = 1 \<and>
   fst (handleScanKVs [] (Some far_page) (Some 4) ''rawkv'' g_up b_pair) =
     reply 200 True ''Scan keys successful''
       (Paginated [\<lparr>Key = ''a'', Value = ''1''\<rparr>] 1 far_page 4 1) []"
proof -
  have o: "go_int (go_int (far_page - 1) * 4) = 0" by (simp add: far_page_def go_int_def)
  have l: "go_int 4 = 4" "go_int (1 + 4 - 1) = 4" by (simp_all add: go_int_def)
  have s: "scanRawKVs [] far_page 4 g_up b_pair
             = (Inr ([\<lparr>Key = ''a'', Value = ''1''\<rparr>], 1),
                logged (RawScan [] [CHR 0xFF, CHR 0xFF, CHR 0xFF, CHR 0xFF] 4) True (consume b_pair))"
    by (simp add: scanRawKVs_def o l raw_Scan_def fault_def prefixedRange_def in_range_def
          pair_of_def g_up_def b_pair_def b_empty_def)
  have p: "0 < far_page" by (simp add: far_page_def)
  have c: "rawKvClient g_up" by (simp add: g_up_def)
  have "fst (handleScanKVs [] (Some far_page) (Some 4) ''rawkv'' g_up b_pair) =
     reply 200 True ''Scan keys successful''
       (Paginated [\<lparr>Key = ''a'', Value = ''1''\<rparr>] 1 far_page 4 1) []"
    using p c by (simp add: handleScanKVs_def s l go_div_def)
  moreover have "(far_page - 1) * 4 = 2 ^ 64" by (simp add: far_page_def)
  moreover have "length (raw b_pair) = 1" by (simp add: b_pair_def b_empty_def)
  ultimately show ?thesis by blast
qed



section \<open>The direct sweep\<close>

lemma zero_char_least: "CHR 0x00 \<le> (c :: char)"
  by (simp add: less_eq_char_def)

lemma key_successor:
  fixes x y :: key
  shows "x < y \<Longrightarrow> x @ [CHR 0x00] \<le> y"
proof (induction x arbitrary: y)
  case Nil
  then obtain c cs where y: "y = c # cs" by (cases y) auto
  have "CHR 0x00 < c \<or> CHR 0x00 = c" using zero_char_least[of c] by (simp add: order_le_less)
  then show ?case unfolding y by auto
next
  case (Cons a x)
  then obtain c cs where y: "y = c # cs" by (cases y) auto
  with Cons.prems have "a < c \<or> a = c \<and> x < cs" by simp
  then show ?case using Cons.IH[of cs] y by auto
qed

lemma ordered_distinct: "sorted_wrt (<) (map fst (xs :: kvs)) \<Longrightarrow> distinct (map fst xs)"
  by (simp add: strict_sorted_iff)

lemma ordered_filter: "sorted_wrt (<) (map fst (xs :: kvs)) \<Longrightarrow> sorted_wrt (<) (map fst (filter P xs))"
  by (induction xs) auto

lemma filter_out_taken:
  "distinct (map fst xs) \<Longrightarrow> filter (\<lambda>p. fst p \<notin> fst ` set (take n xs)) xs = drop n xs"
proof (induction xs arbitrary: n)
  case Nil
  then show ?case by simp
next
  case (Cons x xs)
  show ?case
  proof (cases n)
    case 0
    then show ?thesis by simp
  next
    case (Suc m)
    from Cons.prems have d: "distinct (map fst xs)" and nx: "fst x \<notin> fst ` set xs" by auto
    have "filter (\<lambda>p. fst p \<notin> fst ` set (take n (x # xs))) xs
            = filter (\<lambda>p. fst p \<notin> fst ` set (take m xs)) xs"
      using nx Suc by (intro filter_cong) (auto simp: image_iff)
    with Cons.IH[OF d, of m] Suc show ?thesis by simp
  qed
qed

lemma beyond_taken:
  assumes "sorted_wrt (<) (map fst (xs :: kvs))" "take n xs \<noteq> []" "p \<in> set (drop n xs)"
  shows "fst (last (take n xs)) < fst p"
proof -
  have "sorted_wrt (<) (map fst (take n xs) @ map fst (drop n xs))"
    using assms(1) by (simp flip: map_append)
  then have "\<forall>a \<in> set (map fst (take n xs)). \<forall>c \<in> set (map fst (drop n xs)). a < c"
    by (simp add: sorted_wrt_append)
  moreover have "fst (last (take n xs)) \<in> set (map fst (take n xs))"
    using assms(2) by (metis last_in_set imageI set_map)
  ultimately show ?thesis using assms(3) by auto
qed

lemma delete_keys_total:
  "plan b = [] \<Longrightarrow>
   \<exists>b1. delete_keys ks n b = (Inr (n + length ks), b1) \<and>
        raw b1 = filter (\<lambda>p. fst p \<notin> set ks) (raw b) \<and> plan b1 = [] \<and> txnkv b1 = txnkv b"
proof (induction ks arbitrary: n b)
  case Nil
  then show ?case by simp
next
  case (Cons k ks)
  let ?b = "(logged (RawDelete k) True (consume b))\<lparr>raw := kv_del k (raw b)\<rparr>"
  have d: "raw_Delete k b = (None, ?b)" using Cons.prems by (simp add: raw_Delete_def fault_def)
  have "plan ?b = []" using Cons.prems by (simp add: logged_def consume_def)
  from Cons.IH[OF this, of "n + 1"] obtain b1 where
    r: "delete_keys ks (n + 1) ?b = (Inr (n + 1 + length ks), b1)"
    and s: "raw b1 = filter (\<lambda>p. fst p \<notin> set ks) (raw ?b)" "plan b1 = []" "txnkv b1 = txnkv ?b"
    by blast
  have "filter (\<lambda>p. fst p \<notin> set ks) (kv_del k (raw b)) = filter (\<lambda>p. fst p \<notin> set (k # ks)) (raw b)"
    by (auto simp: kv_del_def intro: filter_cong)
  with d r s show ?case by (simp add: logged_def consume_def)
qed

lemma raw_sweep_complete:
  assumes "sorted_wrt (<) (map fst (raw b))" "plan b = []"
    and "\<forall>p \<in> set (raw b). fst p < e \<longrightarrow> s \<le> fst p"
  shows "\<exists>b'. raw_sweep e s n b =
            (reply 200 True ''Delete all keys successful''
               (Deleted (n + length (filter (\<lambda>p. fst p < e) (raw b))) ''rawkv'') [], b') \<and>
          raw b' = filter (\<lambda>p. \<not> fst p < e) (raw b) \<and> plan b' = [] \<and> txnkv b' = txnkv b"
  using assms
proof (induction e s n b rule: raw_sweep.induct)
  case (1 e s n b)
  define F where "F = filter (\<lambda>p. fst p < e) (raw b)"
  define found where "found = take 1000 F"
  let ?b1 = "logged (RawScan s e 1000) True (consume b)"
  have inr: "filter (in_range s e) (raw b) = F"
    unfolding F_def using "1.prems"(3) by (intro filter_cong) (auto simp: in_range_def)
  have sc: "raw_Scan s e 1000 b = (Inr found, ?b1)"
    using "1.prems"(2) by (simp add: raw_Scan_def fault_def inr found_def)
  have b1: "raw ?b1 = raw b" "plan ?b1 = []" "txnkv ?b1 = txnkv b"
    using "1.prems"(2) by (simp_all add: logged_def consume_def)
  show ?case
  proof (cases "found = []")
    case True
    then have "F = []" by (simp add: found_def)
    then have "filter (\<lambda>p. \<not> fst p < e) (raw b) = raw b"
      unfolding F_def by (simp add: filter_empty_conv)
    with True \<open>F = []\<close> sc b1 show ?thesis
      by (subst raw_sweep.simps) (simp add: F_def[symmetric])
  next
    case False
    from delete_keys_total[OF b1(2), of "map fst found" n] obtain b2 where
      dk: "delete_keys (map fst found) n ?b1 = (Inr (n + length found), b2)"
      and r2: "raw b2 = filter (\<lambda>p. fst p \<notin> set (map fst found)) (raw b)"
      and p2: "plan b2 = []" and t2: "txnkv b2 = txnkv b"
      using b1 by auto
    have dF: "distinct (map fst F)" and sF: "sorted_wrt (<) (map fst F)"
      using "1.prems"(1) unfolding F_def by (auto intro: ordered_distinct ordered_filter)
    have F2: "filter (\<lambda>p. fst p < e) (raw b2) = drop 1000 F"
    proof -
      have "filter (\<lambda>p. fst p < e) (raw b2) = filter (\<lambda>p. fst p \<notin> fst ` set (take 1000 F)) F"
        unfolding r2 F_def found_def by (simp add: conj_commute)
      then show ?thesis using filter_out_taken[OF dF] by simp
    qed
    have s2: "sorted_wrt (<) (map fst (raw b2))"
      unfolding r2 using "1.prems"(1) by (rule ordered_filter)
    have inv: "\<forall>p \<in> set (raw b2). fst p < e \<longrightarrow> fst (last found) @ [CHR 0x00] \<le> fst p"
    proof (intro ballI impI)
      fix p assume "p \<in> set (raw b2)" "fst p < e"
      then have "p \<in> set (filter (\<lambda>p. fst p < e) (raw b2))" by simp
      then have "p \<in> set (drop 1000 F)" unfolding F2 .
      with beyond_taken[OF sF] False have "fst (last found) < fst p" by (simp add: found_def)
      then show "fst (last found) @ [CHR 0x00] \<le> fst p" by (rule key_successor)
    qed
    from "1.IH"[OF sc[symmetric] refl _ dk[symmetric] refl s2 p2 inv] False
    obtain b' where
      rs: "raw_sweep e (fst (last found) @ [CHR 0x00]) (n + length found) b2 =
            (reply 200 True ''Delete all keys successful''
               (Deleted (n + length found + length (filter (\<lambda>p. fst p < e) (raw b2))) ''rawkv'') [], b')"
      and r': "raw b' = filter (\<lambda>p. \<not> fst p < e) (raw b2)" and p': "plan b' = []"
      and t': "txnkv b' = txnkv b2"
      by auto
    have cnt: "length found + length (filter (\<lambda>p. fst p < e) (raw b2)) = length F"
      unfolding F2 found_def by simp
    have "filter (\<lambda>p. \<not> fst p < e) (raw b2) = filter (\<lambda>p. \<not> fst p < e) (raw b)"
    proof -
      have "set (map fst found) \<subseteq> {k. k < e}"
        unfolding found_def F_def by (auto dest!: in_set_takeD)
      then show ?thesis unfolding r2 by (auto intro!: filter_cong)
    qed
    with r' have r'': "raw b' = filter (\<lambda>p. \<not> fst p < e) (raw b)" by simp
    have "raw_sweep e s n b = raw_sweep e (fst (last found) @ [CHR 0x00]) (n + length found) b2"
      using sc dk False by (subst raw_sweep.simps) simp
    with rs cnt r'' p' t' t2 show ?thesis
      by (simp add: F_def[symmetric] add.assoc)
  qed
qed


lemma raw_sweep_round:
  assumes "plan c = []" "raw_Scan s e 1000 c = (Inr found, c1)"
  shows "found = take 1000 (filter (in_range s e) (raw c)) \<and>
         (found = [] \<longrightarrow>
            raw_sweep e s n c =
              (reply 200 True ''Delete all keys successful'' (Deleted n ''rawkv'') [], c1)) \<and>
         (found \<noteq> [] \<longrightarrow>
            (\<exists>c2. raw c2 = filter (\<lambda>p. fst p \<notin> fst ` set found) (raw c) \<and>
                  raw_sweep e s n c
                    = raw_sweep e (fst (last found) @ [CHR 0x00]) (n + length found) c2))"
proof -
  from raw_Scan_found[OF assms(2)] have f: "found = take 1000 (filter (in_range s e) (raw c))"
    and r1: "raw c1 = raw c" and p1: "plan c1 = []" using assms(1) by simp_all
  from delete_keys_total[OF p1, of "map fst found" n] obtain c2 where
    dk: "delete_keys (map fst found) n c1 = (Inr (n + length found), c2)"
    and r2: "raw c2 = filter (\<lambda>p. fst p \<notin> set (map fst found)) (raw c1)" by auto
  have a: "found = [] \<longrightarrow>
            raw_sweep e s n c =
              (reply 200 True ''Delete all keys successful'' (Deleted n ''rawkv'') [], c1)"
    using assms(2) by (subst raw_sweep.simps) simp
  have "found \<noteq> [] \<longrightarrow>
          raw_sweep e s n c = raw_sweep e (fst (last found) @ [CHR 0x00]) (n + length found) c2"
    using assms(2) dk by (subst raw_sweep.simps) simp
  with f a r2 r1 show ?thesis by auto
qed

text \<open>
  C6: in direct mode \<open>handleDeleteAllKVs\<close> is the sweep from the empty cursor. A round
  of the sweep scans the first 1000 pairs of the managed range from the cursor on; on an
  empty batch it answers with the count so far, otherwise it deletes every key of the
  batch and goes on from the last key of the batch with a zero byte appended, the count
  raised by the size of the batch. On a store in key order and a backend that does not
  fail, the sweep ends with \<open>deletedCount\<close> the number of managed pairs, the managed pairs
  are gone and only they, and a scan of the whole managed namespace afterwards returns
  nothing. (The managed namespace is the range \<open>prefixedRange ""\<close>: a key from four
  \<open>0xFF\<close> bytes on is outside it and stays.)
\<close>

theorem deleteAll_direct_complete:
  assumes "rawKvClient g" "RawKVClient g \<noteq> None"
    and "sorted_wrt (<) (map fst (raw b))" and "plan b = []"
  shows "handleDeleteAllKVs ''rawkv'' g b = raw_sweep (snd (prefixedRange [])) [] 0 b \<and>
         (\<forall>s n c found c1.
            plan c = [] \<and> raw_Scan s (snd (prefixedRange [])) 1000 c = (Inr found, c1) \<longrightarrow>
            found = take 1000 (filter (in_range s (snd (prefixedRange []))) (raw c)) \<and>
            (found = [] \<longrightarrow>
               raw_sweep (snd (prefixedRange [])) s n c =
                 (reply 200 True ''Delete all keys successful'' (Deleted n ''rawkv'') [], c1)) \<and>
            (found \<noteq> [] \<longrightarrow>
               (\<exists>c2. raw c2 = filter (\<lambda>p. fst p \<notin> fst ` set found) (raw c) \<and>
                     raw_sweep (snd (prefixedRange [])) s n c
                       = raw_sweep (snd (prefixedRange [])) (fst (last found) @ [CHR 0x00])
                           (n + length found) c2))) \<and>
         (\<exists>b'. handleDeleteAllKVs ''rawkv'' g b =
                 (reply 200 True ''Delete all keys successful''
                    (Deleted (length (filter managed (raw b))) ''rawkv'') [], b') \<and>
               raw b' = filter (\<lambda>p. \<not> managed p) (raw b) \<and>
               filter managed (raw b') = [] \<and>
               fst (scanRawKVs [] 1 100 g b') = Inr ([], 0))"
proof -
  have h: "handleDeleteAllKVs ''rawkv'' g b = raw_sweep (snd (prefixedRange [])) [] 0 b"
    using assms(1,2) by (auto simp: handleDeleteAllKVs_def prefixedRange_def)
  have m: "managed = (\<lambda>p. fst p < snd (prefixedRange []))"
    by (rule ext) (simp add: managed_def in_range_def prefixedRange_def)
  have inv: "\<forall>p \<in> set (raw b). fst p < snd (prefixedRange []) \<longrightarrow> [] \<le> fst p" by simp
  from raw_sweep_complete[OF assms(3,4) inv, of 0] obtain b' where
    r: "raw_sweep (snd (prefixedRange [])) [] 0 b =
          (reply 200 True ''Delete all keys successful''
             (Deleted (length (filter managed (raw b))) ''rawkv'') [], b')"
    and s: "raw b' = filter (\<lambda>p. \<not> managed p) (raw b)" and p: "plan b' = []"
    unfolding m by auto
  have e: "filter managed (raw b') = []" unfolding s by (simp add: filter_empty_conv)
  have nf: "\<not> fault b'" using p by (simp add: fault_def)
  have f: "[] = take (nat ((1 - 1) * 100 + (100::int)))
                 (filter (in_range (fst (prefixedRange [])) (snd (prefixedRange []))) (raw b'))"
    using e by (simp add: managed_def[abs_def])
  have "fst (scanRawKVs [] 1 100 g b') = Inr ([], 0)"
    using scanRawKVs_window[OF _ _ _ assms(1,2) nf f] by simp
  with h r s e have "\<exists>b'. handleDeleteAllKVs ''rawkv'' g b =
                 (reply 200 True ''Delete all keys successful''
                    (Deleted (length (filter managed (raw b))) ''rawkv'') [], b') \<and>
               raw b' = filter (\<lambda>p. \<not> managed p) (raw b) \<and>
               filter managed (raw b') = [] \<and>
               fst (scanRawKVs [] 1 100 g b') = Inr ([], 0)" by auto
  with h raw_sweep_round show ?thesis by blast
qed

text \<open>C6 on a store of three pairs.\<close>

theorem deleteAll_direct_complete_witness:
  "\<exists>b'. handleDeleteAllKVs ''rawkv'' g_up b_three =
          (reply 200 True ''Delete all keys successful'' (Deleted 3 ''rawkv'') [], b') \<and>
        raw b' = [] \<and> fst (scanRawKVs [] 1 100 g_up b') = Inr ([], 0)"
proof -
  have c: "rawKvClient g_up" "RawKVClient g_up \<noteq> None" by (simp_all add: g_up_def)
  have o: "sorted_wrt (<) (map fst (raw b_three))" "plan b_three = []"
    by (simp_all add: b_three_def b_empty_def)
  have m: "filter managed (raw b_three) = raw b_three" "length (raw b_three) = 3"
    by (simp_all add: b_three_def b_empty_def managed_def in_range_def prefixedRange_def)
  from deleteAll_direct_complete[OF c o] obtain b' where
    "handleDeleteAllKVs ''rawkv'' g_up b_three =
          (reply 200 True ''Delete all keys successful''
             (Deleted (length (filter managed (raw b_three))) ''rawkv'') [], b')"
    and "raw b' = filter (\<lambda>p. \<not> managed p) (raw b_three)"
    and "fst (scanRawKVs [] 1 100 g_up b') = Inr ([], 0)"
    by blast
  moreover have "filter (\<lambda>p. \<not> managed p) (raw b_three) = []"
    using m(1) by (metis filter_False filter_id_conv)
  ultimately show ?thesis using m by (intro exI[of _ b']) simp
qed


section \<open>The transactional sweep\<close>

lemma txn_Begin_any:
  "txn_Begin b = (res, b1) \<Longrightarrow>
     txnkv b1 = txnkv b \<and>
     (case res of
        Inl e \<Rightarrow> next_tid b1 = next_tid b \<and> membuf b1 = membuf b
      | Inr t \<Rightarrow> t = next_tid b \<and> next_tid b1 = Suc t \<and> membuf b1 = (membuf b)(t := []))"
  by (auto simp: txn_Begin_def logged_def consume_def split: if_splits)

lemma txn_Iter_any:
  "txn_Iter t s e b = (res, b1) \<Longrightarrow>
     txnkv b1 = txnkv b \<and> next_tid b1 = next_tid b \<and> membuf b1 = membuf b"
  by (auto simp: txn_Iter_def logged_def consume_def split: if_splits)

lemma iter_Next_any:
  "iter_Next t b = (res, b1) \<Longrightarrow>
     txnkv b1 = txnkv b \<and> next_tid b1 = next_tid b \<and> membuf b1 = membuf b"
  by (auto simp: iter_Next_def logged_def consume_def split: if_splits)

lemma txn_Rollback_any:
  "txnkv (txn_Rollback t b) = txnkv b \<and> next_tid (txn_Rollback t b) = next_tid b \<and>
   membuf (txn_Rollback t b) = membuf b \<and> plan (txn_Rollback t b) = plan b \<and>
   raw (txn_Rollback t b) = raw b"
  by (simp add: txn_Rollback_def logged_def)

lemma txn_Commit_any:
  "txn_Commit t b = (res, b1) \<Longrightarrow>
     next_tid b1 = next_tid b \<and> membuf b1 = membuf b \<and>
     (case res of Some e \<Rightarrow> txnkv b1 = txnkv b
      | None \<Rightarrow> txnkv b1 = foldr stage (membuf b t) (txnkv b))"
  by (auto simp: txn_Commit_def logged_def consume_def split: if_splits)

lemma collect_any:
  "collect t n items acc b = (res, b1) \<Longrightarrow>
     txnkv b1 = txnkv b \<and> next_tid b1 = next_tid b \<and> membuf b1 = membuf b \<and>
     (\<forall>keys. res = Inr keys \<longrightarrow> keys = acc @ take (n - length acc) (map fst items))"
proof (induction items arbitrary: acc b)
  case Nil
  then show ?case by auto
next
  case (Cons item items)
  show ?case
  proof (cases "length acc < n")
    case True
    obtain r0 b0 where nx: "iter_Next t b = (r0, b0)" by (cases "iter_Next t b")
    show ?thesis
    proof (cases r0)
      case None
      with True nx Cons.prems have r: "collect t n items (acc @ [fst item]) b0 = (res, b1)" by simp
      from True have "n - length acc = Suc (n - Suc (length acc))" by simp
      with Cons.IH[OF r] iter_Next_any[OF nx] show ?thesis by simp
    next
      case (Some e)
      with True nx Cons.prems iter_Next_any[OF nx] show ?thesis by auto
    qed
  next
    case False
    with Cons.prems show ?thesis by auto
  qed
qed

lemma stage_deletes_any:
  "stage_deletes t ks b = (res, b1) \<Longrightarrow>
     txnkv b1 = txnkv b \<and> next_tid b1 = next_tid b \<and>
     (\<exists>m \<le> length ks. membuf b1 = (membuf b)(t := rev (map (\<lambda>k. (k, None)) (take m ks)) @ membuf b t))"
proof (induction ks arbitrary: b)
  case Nil
  then show ?case by auto
next
  case (Cons k ks)
  show ?case
  proof (cases "fault b")
    case True
    with Cons.prems have "b1 = logged (TxnDelete t k) False (consume b)"
      by (simp add: txn_Delete_def)
    then have "txnkv b1 = txnkv b \<and> next_tid b1 = next_tid b \<and>
               membuf b1 = (membuf b)(t := rev (map (\<lambda>k. (k, None)) (take 0 (k # ks))) @ membuf b t)"
      by (simp add: logged_def consume_def)
    then show ?thesis by blast
  next
    case False
    let ?b = "(logged (TxnDelete t k) True (consume b))\<lparr>membuf := (membuf b)(t := (k, None) # membuf b t)\<rparr>"
    from False Cons.prems have r: "stage_deletes t ks ?b = (res, b1)" by (simp add: txn_Delete_def)
    from Cons.IH[OF r] obtain m where m: "m \<le> length ks"
      "membuf b1 = (membuf ?b)(t := rev (map (\<lambda>k. (k, None)) (take m ks)) @ membuf ?b t)"
      and f: "txnkv b1 = txnkv ?b" "next_tid b1 = next_tid ?b" by blast
    have "membuf b1 = (membuf b)(t := rev (map (\<lambda>k. (k, None)) (take (Suc m) (k # ks))) @ membuf b t)"
      using m(2) by (simp add: logged_def consume_def)
    moreover have "Suc m \<le> length (k # ks)" using m(1) by simp
    ultimately show ?thesis using f by (auto simp: logged_def consume_def simp del: take_Suc_Cons)
  qed
qed

lemma foldr_stage_subset:
  "\<forall>w \<in> set ws. snd w = None \<Longrightarrow> set (foldr stage ws xs) \<subseteq> set xs"
  by (induction ws) (auto simp: stage_def kv_del_def)

text \<open>What one round does to the transactions and to the store, whatever fails.\<close>

lemma txn_round_any:
  assumes "txn_round s e n d b = (out, b1)"
  shows "set (txnkv b1) \<subseteq> set (txnkv b) \<and>
         next_tid b \<le> next_tid b1 \<and> next_tid b1 \<le> Suc (next_tid b) \<and>
         (\<forall>t. t \<noteq> next_tid b \<longrightarrow> membuf b1 t = membuf b t) \<and>
         (next_tid b1 = next_tid b \<longrightarrow> membuf b1 = membuf b) \<and>
         (next_tid b1 = Suc (next_tid b) \<longrightarrow>
            length (membuf b1 (next_tid b)) \<le> n \<and>
            (\<forall>w \<in> set (membuf b1 (next_tid b)). snd w = None))"
proof -
  obtain r0 ba where bg: "txn_Begin b = (r0, ba)" by (cases "txn_Begin b")
  show ?thesis
  proof (cases r0)
    case (Inl e)
    with assms bg have "b1 = ba" by (simp add: txn_round_def)
    with txn_Begin_any[OF bg] Inl show ?thesis by simp
  next
    case (Inr t)
    with txn_Begin_any[OF bg] have t: "t = next_tid b" and ba: "txnkv ba = txnkv b"
      "next_tid ba = Suc t" "membuf ba = (membuf b)(t := [])" by simp_all
    obtain r1 bb where it: "txn_Iter t s e ba = (r1, bb)" by (cases "txn_Iter t s e ba")
    note I = txn_Iter_any[OF it]
    show ?thesis
    proof (cases r1)
      case (Inl e)
      with assms bg Inr it have "b1 = txn_Rollback t bb" by (simp add: txn_round_def)
      with I ba t show ?thesis by (simp add: txn_Rollback_any)
    next
      case items: (Inr items)
      obtain r2 bc where co: "collect t n items [] bb = (r2, bc)"
        by (cases "collect t n items [] bb")
      note C = collect_any[OF co]
      show ?thesis
      proof (cases r2)
        case (Inl e)
        with assms bg Inr it items co have "b1 = txn_Rollback t bc" by (simp add: txn_round_def)
        with C I ba t show ?thesis by (simp add: txn_Rollback_any)
      next
        case keys: (Inr keys)
        with C have kl: "length keys \<le> n" by simp
        show ?thesis
        proof (cases "length keys = 0")
          case True
          with assms bg Inr it items co keys have "b1 = txn_Rollback t bc" by (simp add: txn_round_def)
          with C I ba t show ?thesis by (simp add: txn_Rollback_any)
        next
          case False
          obtain r3 bd where st: "stage_deletes t keys bc = (r3, bd)"
            by (cases "stage_deletes t keys bc")
          from stage_deletes_any[OF st] obtain m where m: "m \<le> length keys"
            "membuf bd = (membuf bc)(t := rev (map (\<lambda>k. (k, None)) (take m keys)) @ membuf bc t)"
            and S: "txnkv bd = txnkv bc" "next_tid bd = next_tid bc" by blast
          have mb: "membuf bd = (membuf b)(t := rev (map (\<lambda>k. (k, None)) (take m keys)))"
            using m(2) C I ba by simp
          have mt: "length (membuf bd t) \<le> n" "\<forall>w \<in> set (membuf bd t). snd w = None"
            using mb m(1) kl by auto
          show ?thesis
          proof (cases r3)
            case (Some e)
            with assms bg Inr it items co keys False st have "b1 = txn_Rollback t bd"
              by (simp add: txn_round_def)
            with S C I ba t mb mt show ?thesis by (simp add: txn_Rollback_any)
          next
            case None
            obtain r4 be where cm: "txn_Commit t bd = (r4, be)" by (cases "txn_Commit t bd")
            with assms bg Inr it items co keys False st None have b1: "b1 = be"
              by (auto simp: txn_round_def split: option.splits if_splits)
            from txn_Commit_any[OF cm] have M: "next_tid be = next_tid bd" "membuf be = membuf bd"
              and tk: "txnkv be = txnkv bd \<or> txnkv be = foldr stage (membuf bd t) (txnkv bd)"
              by (auto split: option.splits)
            have "set (txnkv be) \<subseteq> set (txnkv bd)"
              using tk foldr_stage_subset[OF mt(2), of "txnkv bd"] by auto
            with b1 M S C I ba t mb mt show ?thesis by simp
          qed
        qed
      qed
    qed
  qed
qed

lemma txn_sweep_any:
  assumes "txn_sweep s e n d b = (r, b')"
  shows "set (txnkv b') \<subseteq> set (txnkv b) \<and> next_tid b \<le> next_tid b' \<and>
         (\<forall>t < next_tid b. membuf b' t = membuf b t) \<and>
         (\<forall>t. next_tid b \<le> t \<and> t < next_tid b' \<longrightarrow>
            length (membuf b' t) \<le> n \<and> (\<forall>w \<in> set (membuf b' t). snd w = None))"
  using assms
proof (induction s e n d b rule: txn_sweep.induct)
  case (1 s e n d b)
  obtain out b1 where ro: "txn_round s e n d b = (out, b1)" by (cases "txn_round s e n d b")
  note R = txn_round_any[OF ro]
  have Rb: "\<forall>t. next_tid b \<le> t \<and> t < next_tid b1 \<longrightarrow>
              length (membuf b1 t) \<le> n \<and> (\<forall>w \<in> set (membuf b1 t). snd w = None)"
  proof (intro allI impI)
    fix t assume "next_tid b \<le> t \<and> t < next_tid b1"
    with R have "t = next_tid b" "next_tid b1 = Suc (next_tid b)" by auto
    with R show "length (membuf b1 t) \<le> n \<and> (\<forall>w \<in> set (membuf b1 t). snd w = None)" by auto
  qed
  have Rf: "\<forall>t < next_tid b. membuf b1 t = membuf b t" using R by auto
  show ?case
  proof (cases out)
    case (Return x)
    with ro "1.prems" have "b' = b1" by (subst (asm) txn_sweep.simps) simp
    with R Rb Rf show ?thesis by simp
  next
    case (Break x)
    with ro "1.prems" have "b' = b1" by (subst (asm) txn_sweep.simps) simp
    with R Rb Rf show ?thesis by simp
  next
    case (Continue d1)
    with ro "1.prems" have sw: "txn_sweep s e n d1 b1 = (r, b')"
      by (subst (asm) txn_sweep.simps) simp
    note IH = "1.IH"[OF ro[symmetric] Continue sw]
    show ?thesis
    proof (intro conjI allI impI)
      show "set (txnkv b') \<subseteq> set (txnkv b)" using IH R by blast
      show "next_tid b \<le> next_tid b'" using IH R by linarith
    next
      fix t assume "t < next_tid b"
      then show "membuf b' t = membuf b t" using IH R Rf by auto
    next
      fix t assume t: "next_tid b \<le> t \<and> t < next_tid b'"
      show "length (membuf b' t) \<le> n"
      proof (cases "t < next_tid b1")
        case True
        with t IH Rb show ?thesis by auto
      next
        case False
        then have "next_tid b1 \<le> t" by simp
        with t IH show ?thesis by blast
      qed
    next
      fix t assume t: "next_tid b \<le> t \<and> t < next_tid b'"
      show "\<forall>w \<in> set (membuf b' t). snd w = None"
      proof (cases "t < next_tid b1")
        case True
        with t IH Rb show ?thesis by auto
      next
        case False
        then have "next_tid b1 \<le> t" by simp
        with t IH show ?thesis by blast
      qed
    qed
  qed
qed


lemma txn_round_Break:
  assumes "txn_round s e n d b = (Break d1, b1)"
  shows "\<exists>keys. keys = take n (map fst (filter (in_range s e) (txnkv b))) \<and>
           (keys = [] \<or> length keys < n) \<and> d1 = d + length keys \<and>
           txnkv b1 = filter (\<lambda>p. fst p \<notin> set keys) (txnkv b)"
proof -
  from assms obtain t ba items bb keys bc where
    bg: "txn_Begin b = (Inr t, ba)" and it: "txn_Iter t s e ba = (Inr items, bb)"
    and co: "collect t n items [] bb = (Inr keys, bc)"
    unfolding txn_round_def
    by (auto split: prod.splits sum.splits option.splits if_splits)
  note B = txn_Begin_ok[OF bg] and I = txn_Iter_ok[OF it] and C = collect_ok[OF co]
  have v: "view ba t = txnkv b" using B by (simp add: view_def)
  have k: "keys = take n (map fst (filter (in_range s e) (txnkv b)))" using C I v by simp
  show ?thesis
  proof (cases "length keys = 0")
    case True
    then have ke: "keys = []" by simp
    from True assms bg it co have b1: "b1 = txn_Rollback t bc" and d1: "d1 = d"
      by (simp_all add: txn_round_def)
    have "txnkv b1 = txnkv b" unfolding b1 using C I B by (simp add: txn_Rollback_any)
    then have "txnkv b1 = filter (\<lambda>p. fst p \<notin> set keys) (txnkv b)" unfolding ke by simp
    moreover have "d1 = d + length keys" using d1 ke by simp
    ultimately show ?thesis using k ke by blast
  next
    case False
    with assms bg it co obtain bd where
      st: "stage_deletes t keys bc = (None, bd)" and cm: "txn_Commit t bd = (None, b1)"
      and lt: "length keys < n" and d1: "d1 = d + length keys"
      unfolding txn_round_def
      by (auto split: prod.splits sum.splits option.splits if_splits)
    note S = stage_deletes_ok[OF st] and M = txn_Commit_ok[OF cm]
    have mb: "membuf bd t = rev (map (\<lambda>k. (k, None)) keys)" using S C I B by simp
    have "txnkv b1 = filter (\<lambda>p. fst p \<notin> set keys) (txnkv b)"
      using M mb S C I B by (simp add: foldr_stage_deletes)
    with k lt d1 show ?thesis by auto
  qed
qed

lemma collect_total:
  "plan b = [] \<Longrightarrow>
   \<exists>b1. collect t n items acc b = (Inr (acc @ take (n - length acc) (map fst items)), b1) \<and>
        plan b1 = [] \<and> next_tid b1 = next_tid b \<and> txnkv b1 = txnkv b \<and> raw b1 = raw b \<and>
        snap b1 = snap b \<and> membuf b1 = membuf b"
proof (induction items arbitrary: acc b)
  case Nil
  then show ?case by simp
next
  case (Cons item items)
  show ?case
  proof (cases "length acc < n")
    case True
    let ?b = "logged (TxnIterNext t) True (consume b)"
    have nx: "iter_Next t b = (None, ?b)" using Cons.prems by (simp add: iter_Next_def fault_def)
    have p: "plan ?b = []" using Cons.prems by (simp add: logged_def consume_def)
    from True have "n - length acc = Suc (n - Suc (length acc))" by simp
    with Cons.IH[OF p, of "acc @ [fst item]"] True nx show ?thesis
      by (auto simp: logged_def consume_def)
  next
    case False
    with Cons.prems show ?thesis by simp
  qed
qed

lemma stage_deletes_total:
  "plan b = [] \<Longrightarrow>
   \<exists>b1. stage_deletes t ks b = (None, b1) \<and> plan b1 = []"
proof (induction ks arbitrary: b)
  case Nil
  then show ?case by simp
next
  case (Cons k ks)
  let ?b = "(logged (TxnDelete t k) True (consume b))\<lparr>membuf := (membuf b)(t := (k, None) # membuf b t)\<rparr>"
  have d: "txn_Delete t k b = (None, ?b)" using Cons.prems by (simp add: txn_Delete_def fault_def)
  have "plan ?b = []" using Cons.prems by (simp add: logged_def consume_def)
  from Cons.IH[OF this] d show ?case by auto
qed

lemma txn_round_total:
  assumes "plan b = []"
    and "keys = take n (map fst (filter (in_range s e) (txnkv b)))"
  shows "\<exists>b1. txn_round s e n d b =
              ((if keys = [] then Break d
                else if length keys < n then Break (d + length keys)
                else Continue (d + length keys)), b1) \<and>
            txnkv b1 = filter (\<lambda>p. fst p \<notin> set keys) (txnkv b) \<and> plan b1 = [] \<and>
            next_tid b1 = Suc (next_tid b) \<and> raw b1 = raw b"
proof -
  let ?t = "next_tid b"
  let ?ba = "(logged (TxnBegin ?t) True (consume b))
               \<lparr>next_tid := Suc ?t, snap := (snap b)(?t := txnkv b), membuf := (membuf b)(?t := [])\<rparr>"
  have bg: "txn_Begin b = (Inr ?t, ?ba)" using assms(1) by (simp add: txn_Begin_def fault_def)
  have pa: "plan ?ba = []" using assms(1) by (simp add: logged_def consume_def)
  let ?bb = "logged (TxnIter ?t s e) True (consume ?ba)"
  have v: "view ?ba ?t = txnkv b" by (simp add: view_def logged_def consume_def)
  have it: "txn_Iter ?t s e ?ba = (Inr (filter (in_range s e) (txnkv b)), ?bb)"
    using pa v by (simp add: txn_Iter_def fault_def)
  have pb: "plan ?bb = []" using pa by (simp add: logged_def consume_def)
  from collect_total[OF pb, of ?t n "filter (in_range s e) (txnkv b)" "[]"] obtain bc where
    co: "collect ?t n (filter (in_range s e) (txnkv b)) [] ?bb = (Inr keys, bc)"
    and C: "plan bc = []" "next_tid bc = next_tid ?bb" "txnkv bc = txnkv ?bb" "raw bc = raw ?bb"
      "snap bc = snap ?bb" "membuf bc = membuf ?bb"
    using assms(2) by auto
  have fb: "next_tid ?bb = Suc ?t" "txnkv ?bb = txnkv b" "raw ?bb = raw b" "membuf ?bb ?t = []"
    by (simp_all add: logged_def consume_def)
  show ?thesis
  proof (cases "keys = []")
    case True
    with bg it co have "txn_round s e n d b = (Break d, txn_Rollback ?t bc)"
      by (simp add: txn_round_def)
    with True C fb show ?thesis by (simp add: txn_Rollback_any)
  next
    case False
    from stage_deletes_total[OF C(1), of ?t keys] obtain bd where
      st: "stage_deletes ?t keys bc = (None, bd)" and pd: "plan bd = []" by blast
    note S = stage_deletes_ok[OF st]
    let ?be = "(logged (TxnCommit ?t) True (consume bd))\<lparr>txnkv := foldr stage (membuf bd ?t) (txnkv bd)\<rparr>"
    have cm: "txn_Commit ?t bd = (None, ?be)" using pd by (simp add: txn_Commit_def fault_def)
    have mb: "membuf bd ?t = rev (map (\<lambda>k. (k, None)) keys)" using S C fb by simp
    have te: "txnkv ?be = filter (\<lambda>p. fst p \<notin> set keys) (txnkv b)"
      using mb S C fb by (simp add: foldr_stage_deletes)
    have fe: "plan ?be = []" "next_tid ?be = Suc ?t" "raw ?be = raw b"
      using pd S C fb by (simp_all add: logged_def consume_def)
    have "txn_round s e n d b =
            ((if length keys < n then Break (d + length keys) else Continue (d + length keys)), ?be)"
      using False bg it co st cm by (simp add: txn_round_def)
    with False te fe show ?thesis by auto
  qed
qed


lemma in_range_key: "fst p = fst q \<Longrightarrow> in_range s e p = in_range s e q"
  by (simp add: in_range_def)

lemma txn_round_Return:
  "txn_round s e n d b = (Return r, b1) \<Longrightarrow> \<not> Success r"
  by (auto simp: txn_round_def reply_def split: prod.splits sum.splits option.splits if_splits)

lemma txn_sweep_complete:
  assumes "plan b = []" "distinct (map fst (txnkv b))" "0 < n"
  shows "\<exists>b'. txn_sweep s e n d b =
              (reply 200 True ''Delete all keys successful''
                 (Deleted (d + length (filter (in_range s e) (txnkv b))) ''txn'') [], b') \<and>
            txnkv b' = filter (\<lambda>p. \<not> in_range s e p) (txnkv b) \<and> plan b' = [] \<and>
            next_tid b' = next_tid b + length (filter (in_range s e) (txnkv b)) div n + 1"
  using assms
proof (induction s e n d b rule: txn_sweep.induct)
  case (1 s e n d b)
  define F where "F = filter (in_range s e) (txnkv b)"
  define keys where "keys = take n (map fst F)"
  from txn_round_total[OF "1.prems"(1), of keys n s e d] obtain b1 where
    ro: "txn_round s e n d b =
              ((if keys = [] then Break d
                else if length keys < n then Break (d + length keys)
                else Continue (d + length keys)), b1)"
    and t1: "txnkv b1 = filter (\<lambda>p. fst p \<notin> set keys) (txnkv b)" and p1: "plan b1 = []"
    and n1: "next_tid b1 = Suc (next_tid b)"
    unfolding keys_def F_def by blast
  have ks: "set keys = fst ` set (take n F)" unfolding keys_def by (simp add: take_map)
  have dF: "distinct (map fst F)" unfolding F_def using "1.prems"(2) by (simp add: distinct_map_filter)
  have out: "filter (\<lambda>p. \<not> in_range s e p) (txnkv b1) = filter (\<lambda>p. \<not> in_range s e p) (txnkv b)"
  proof -
    have "\<And>p. p \<in> set (txnkv b) \<Longrightarrow> \<not> in_range s e p \<Longrightarrow> fst p \<notin> set keys"
    proof
      fix p assume "p \<in> set (txnkv b)" "\<not> in_range s e p" "fst p \<in> set keys"
      then obtain q where "q \<in> set F" "fst q = fst p" unfolding ks by (auto dest!: in_set_takeD)
      then have "in_range s e p" using in_range_key[of p q s e] by (simp add: F_def)
      with \<open>\<not> in_range s e p\<close> show False by simp
    qed
    then show ?thesis unfolding t1 by (auto intro!: filter_cong)
  qed
  have F1: "filter (in_range s e) (txnkv b1) = drop n F"
  proof -
    have "filter (in_range s e) (txnkv b1) = filter (\<lambda>p. fst p \<notin> fst ` set (take n F)) F"
      unfolding t1 F_def ks by (simp add: conj_commute)
    then show ?thesis using filter_out_taken[OF dF] by simp
  qed
  show ?case
  proof (cases "length keys < n")
    case True
    then have short: "length F < n" using "1.prems"(3) by (auto simp: keys_def)
    then have d0: "drop n F = []" "length keys = length F" by (simp_all add: keys_def)
    have ro': "txn_round s e n d b = (Break (d + length F), b1)"
      using ro True d0 by (cases "keys = []") auto
    have "filter (in_range s e) (txnkv b1) = []" using F1 d0 by simp
    then have "filter (\<lambda>p. \<not> in_range s e p) (txnkv b1) = txnkv b1"
      by (simp add: filter_empty_conv)
    with out have "txnkv b1 = filter (\<lambda>p. \<not> in_range s e p) (txnkv b)" by simp
    with ro' p1 n1 short show ?thesis
      by (subst txn_sweep.simps) (simp add: F_def[symmetric])
  next
    case False
    then have full: "length keys = n" "n \<le> length F" by (auto simp: keys_def)
    with "1.prems"(3) have "keys \<noteq> []" by auto
    with ro False full have ro': "txn_round s e n d b = (Continue (d + n), b1)" by simp
    have d1: "distinct (map fst (txnkv b1))"
      unfolding t1 using "1.prems"(2) by (simp add: distinct_map_filter)
    from "1.IH"[OF ro'[symmetric] refl p1 d1 "1.prems"(3)] obtain b' where
      sw: "txn_sweep s e n (d + n) b1 =
              (reply 200 True ''Delete all keys successful''
                 (Deleted (d + n + length (filter (in_range s e) (txnkv b1))) ''txn'') [], b')"
      and r': "txnkv b' = filter (\<lambda>p. \<not> in_range s e p) (txnkv b1)" and p': "plan b' = []"
      and n': "next_tid b' = next_tid b1 + length (filter (in_range s e) (txnkv b1)) div n + 1"
      by blast
    have cnt: "n + length (filter (in_range s e) (txnkv b1)) = length F"
      unfolding F1 using full by simp
    have "length F div n = Suc ((length F - n) div n)"
      using "1.prems"(3) full by (simp add: le_div_geq)
    then have tid: "next_tid b' = next_tid b + length F div n + 1"
      using n' n1 unfolding F1 by simp
    have "txn_sweep s e n d b = txn_sweep s e n (d + n) b1"
      using ro' by (subst txn_sweep.simps) simp
    with sw cnt r' out p' tid show ?thesis
      by (simp add: F_def[symmetric] add.assoc)
  qed
qed


text \<open>
  C7: in transactional mode \<open>handleDeleteAllKVs\<close> is the sweep with batch size 200. For
  every store and every pattern of backend failures, each transaction the sweep begins
  stages at most 200 writes, all of them deletions. A round opens one transaction,
  collects the first 200 keys of the range at most and stages their deletion on that
  transaction; with 200 keys committed it removes them from the store and the sweep goes
  on, and these keys are absent from the store when the sweep ends, however the later
  rounds end; with fewer than 200 keys (or none) the sweep ends with the count; a round
  that fails ends the sweep with its error response. On a store in key order and a
  backend that does not fail, the sweep answers with the number of managed pairs, all of
  them deleted, in one transaction per 200 pairs and one more.
\<close>

theorem deleteAll_txn_chunks:
  assumes "txnClient g \<noteq> None"
  shows "handleDeleteAllKVs ''txn'' g b
           = txn_sweep (fst (prefixedRange [])) (snd (prefixedRange [])) 200 0 b \<and>
         (\<forall>t. next_tid b \<le> t \<and> t < next_tid (snd (handleDeleteAllKVs ''txn'' g b)) \<longrightarrow>
            length (membuf (snd (handleDeleteAllKVs ''txn'' g b)) t) \<le> 200 \<and>
            (\<forall>w \<in> set (membuf (snd (handleDeleteAllKVs ''txn'' g b)) t). snd w = None)) \<and>
         (\<forall>s e d c out c1.
            txn_round s e 200 d c = (out, c1) \<longrightarrow>
            (\<forall>d1. out = Continue d1 \<longrightarrow>
               (\<exists>chunk. chunk = take 200 (map fst (filter (in_range s e) (txnkv c))) \<and>
                  length chunk = 200 \<and> d1 = d + 200 \<and>
                  txnkv c1 = filter (\<lambda>p. fst p \<notin> set chunk) (txnkv c) \<and>
                  txn_sweep s e 200 d c = txn_sweep s e 200 d1 c1 \<and>
                  (\<forall>k \<in> set chunk. k \<notin> fst ` set (txnkv (snd (txn_sweep s e 200 d1 c1)))))) \<and>
            (\<forall>d1. out = Break d1 \<longrightarrow>
               (\<exists>chunk. chunk = take 200 (map fst (filter (in_range s e) (txnkv c))) \<and>
                  length chunk < 200 \<and> d1 = d + length chunk \<and>
                  txnkv c1 = filter (\<lambda>p. fst p \<notin> set chunk) (txnkv c) \<and>
                  txn_sweep s e 200 d c =
                    (reply 200 True ''Delete all keys successful'' (Deleted d1 ''txn'') [], c1))) \<and>
            (\<forall>r. out = Return r \<longrightarrow> txn_sweep s e 200 d c = (r, c1) \<and> \<not> Success r)) \<and>
         (sorted_wrt (<) (map fst (txnkv b)) \<and> plan b = [] \<longrightarrow>
            (\<exists>b'. handleDeleteAllKVs ''txn'' g b =
                    (reply 200 True ''Delete all keys successful''
                       (Deleted (length (filter managed (txnkv b))) ''txn'') [], b') \<and>
                  txnkv b' = filter (\<lambda>p. \<not> managed p) (txnkv b) \<and>
                  next_tid b' = next_tid b + length (filter managed (txnkv b)) div 200 + 1))"
proof -
  let ?s = "fst (prefixedRange [])" and ?e = "snd (prefixedRange [])"
  have h: "handleDeleteAllKVs ''txn'' g b = txn_sweep ?s ?e 200 0 b"
    using assms by (auto simp: handleDeleteAllKVs_def)
  have A: "\<forall>t. next_tid b \<le> t \<and> t < next_tid (snd (handleDeleteAllKVs ''txn'' g b)) \<longrightarrow>
            length (membuf (snd (handleDeleteAllKVs ''txn'' g b)) t) \<le> 200 \<and>
            (\<forall>w \<in> set (membuf (snd (handleDeleteAllKVs ''txn'' g b)) t). snd w = None)"
    unfolding h using txn_sweep_any[of ?s ?e 200 0 b, OF surjective_pairing] by blast
  have B: "\<exists>chunk. chunk = take 200 (map fst (filter (in_range s e) (txnkv c))) \<and>
                  length chunk = 200 \<and> d1 = d + 200 \<and>
                  txnkv c1 = filter (\<lambda>p. fst p \<notin> set chunk) (txnkv c) \<and>
                  txn_sweep s e 200 d c = txn_sweep s e 200 d1 c1 \<and>
                  (\<forall>k \<in> set chunk. k \<notin> fst ` set (txnkv (snd (txn_sweep s e 200 d1 c1))))"
    if ro: "txn_round s e 200 d c = (Continue d1, c1)" for s e d c d1 c1
  proof -
    from txn_round_Continue[OF ro] obtain chunk where
      c: "chunk = take 200 (map fst (filter (in_range s e) (txnkv c)))" "length chunk = 200"
        "d1 = d + 200" "txnkv c1 = filter (\<lambda>p. fst p \<notin> set chunk) (txnkv c)" by blast
    have sw: "txn_sweep s e 200 d c = txn_sweep s e 200 d1 c1"
      using ro by (subst txn_sweep.simps) simp
    have "set (txnkv (snd (txn_sweep s e 200 d1 c1))) \<subseteq> set (txnkv c1)"
      using txn_sweep_any[of s e 200 d1 c1, OF surjective_pairing] by blast
    then have "\<forall>k \<in> set chunk. k \<notin> fst ` set (txnkv (snd (txn_sweep s e 200 d1 c1)))"
      unfolding c(4) by auto
    with c sw show ?thesis by blast
  qed
  have C: "\<exists>chunk. chunk = take 200 (map fst (filter (in_range s e) (txnkv c))) \<and>
                  length chunk < 200 \<and> d1 = d + length chunk \<and>
                  txnkv c1 = filter (\<lambda>p. fst p \<notin> set chunk) (txnkv c) \<and>
                  txn_sweep s e 200 d c =
                    (reply 200 True ''Delete all keys successful'' (Deleted d1 ''txn'') [], c1)"
    if ro: "txn_round s e 200 d c = (Break d1, c1)" for s e d c d1 c1
  proof -
    from txn_round_Break[OF ro] obtain chunk where
      c: "chunk = take 200 (map fst (filter (in_range s e) (txnkv c)))"
        "chunk = [] \<or> length chunk < 200"
        "d1 = d + length chunk" "txnkv c1 = filter (\<lambda>p. fst p \<notin> set chunk) (txnkv c)" by blast
    from c(2) have "length chunk < 200" by auto
    moreover have "txn_sweep s e 200 d c =
                    (reply 200 True ''Delete all keys successful'' (Deleted d1 ''txn'') [], c1)"
      using ro by (subst txn_sweep.simps) simp
    ultimately show ?thesis using c by blast
  qed
  have R: "txn_sweep s e 200 d c = (r, c1) \<and> \<not> Success r"
    if ro: "txn_round s e 200 d c = (Return r, c1)" for s e d c r c1
    using ro txn_round_Return[OF ro] by (subst txn_sweep.simps) simp
  have D: "\<exists>b'. handleDeleteAllKVs ''txn'' g b =
                    (reply 200 True ''Delete all keys successful''
                       (Deleted (length (filter managed (txnkv b))) ''txn'') [], b') \<and>
                  txnkv b' = filter (\<lambda>p. \<not> managed p) (txnkv b) \<and>
                  next_tid b' = next_tid b + length (filter managed (txnkv b)) div 200 + 1"
    if "sorted_wrt (<) (map fst (txnkv b))" "plan b = []"
  proof -
    have m: "managed = in_range ?s ?e" by (rule ext) (simp add: managed_def)
    from that(1) have "distinct (map fst (txnkv b))" by (rule ordered_distinct)
    from txn_sweep_complete[OF that(2) this, of 200 ?s ?e 0]
    show ?thesis unfolding h m by auto
  qed
  have BCR: "(\<forall>d1. out = Continue d1 \<longrightarrow>
               (\<exists>chunk. chunk = take 200 (map fst (filter (in_range s e) (txnkv c))) \<and>
                  length chunk = 200 \<and> d1 = d + 200 \<and>
                  txnkv c1 = filter (\<lambda>p. fst p \<notin> set chunk) (txnkv c) \<and>
                  txn_sweep s e 200 d c = txn_sweep s e 200 d1 c1 \<and>
                  (\<forall>k \<in> set chunk. k \<notin> fst ` set (txnkv (snd (txn_sweep s e 200 d1 c1)))))) \<and>
            (\<forall>d1. out = Break d1 \<longrightarrow>
               (\<exists>chunk. chunk = take 200 (map fst (filter (in_range s e) (txnkv c))) \<and>
                  length chunk < 200 \<and> d1 = d + length chunk \<and>
                  txnkv c1 = filter (\<lambda>p. fst p \<notin> set chunk) (txnkv c) \<and>
                  txn_sweep s e 200 d c =
                    (reply 200 True ''Delete all keys successful'' (Deleted d1 ''txn'') [], c1))) \<and>
            (\<forall>r. out = Return r \<longrightarrow> txn_sweep s e 200 d c = (r, c1) \<and> \<not> Success r)"
    if ro: "txn_round s e 200 d c = (out, c1)" for s e d c out c1
  proof (intro conjI allI impI)
    fix d1 assume "out = Continue d1"
    with ro show "\<exists>chunk. chunk = take 200 (map fst (filter (in_range s e) (txnkv c))) \<and>
                  length chunk = 200 \<and> d1 = d + 200 \<and>
                  txnkv c1 = filter (\<lambda>p. fst p \<notin> set chunk) (txnkv c) \<and>
                  txn_sweep s e 200 d c = txn_sweep s e 200 d1 c1 \<and>
                  (\<forall>k \<in> set chunk. k \<notin> fst ` set (txnkv (snd (txn_sweep s e 200 d1 c1))))"
      by (intro B) simp
  next
    fix d1 assume "out = Break d1"
    with ro show "\<exists>chunk. chunk = take 200 (map fst (filter (in_range s e) (txnkv c))) \<and>
                  length chunk < 200 \<and> d1 = d + length chunk \<and>
                  txnkv c1 = filter (\<lambda>p. fst p \<notin> set chunk) (txnkv c) \<and>
                  txn_sweep s e 200 d c =
                    (reply 200 True ''Delete all keys successful'' (Deleted d1 ''txn'') [], c1)"
      by (intro C) simp
  next
    fix r assume "out = Return r"
    with ro have "txn_round s e 200 d c = (Return r, c1)" by simp
    from R[OF this] show "txn_sweep s e 200 d c = (r, c1)" "\<not> Success r" by simp_all
  qed
  show ?thesis
  proof (intro conjI)
    show "handleDeleteAllKVs ''txn'' g b = txn_sweep ?s ?e 200 0 b" by (rule h)
    show "\<forall>t. next_tid b \<le> t \<and> t < next_tid (snd (handleDeleteAllKVs ''txn'' g b)) \<longrightarrow>
            length (membuf (snd (handleDeleteAllKVs ''txn'' g b)) t) \<le> 200 \<and>
            (\<forall>w \<in> set (membuf (snd (handleDeleteAllKVs ''txn'' g b)) t). snd w = None)" by (rule A)
    show "\<forall>s e d c out c1.
            txn_round s e 200 d c = (out, c1) \<longrightarrow>
            (\<forall>d1. out = Continue d1 \<longrightarrow>
               (\<exists>chunk. chunk = take 200 (map fst (filter (in_range s e) (txnkv c))) \<and>
                  length chunk = 200 \<and> d1 = d + 200 \<and>
                  txnkv c1 = filter (\<lambda>p. fst p \<notin> set chunk) (txnkv c) \<and>
                  txn_sweep s e 200 d c = txn_sweep s e 200 d1 c1 \<and>
                  (\<forall>k \<in> set chunk. k \<notin> fst ` set (txnkv (snd (txn_sweep s e 200 d1 c1)))))) \<and>
            (\<forall>d1. out = Break d1 \<longrightarrow>
               (\<exists>chunk. chunk = take 200 (map fst (filter (in_range s e) (txnkv c))) \<and>
                  length chunk < 200 \<and> d1 = d + length chunk \<and>
                  txnkv c1 = filter (\<lambda>p. fst p \<notin> set chunk) (txnkv c) \<and>
                  txn_sweep s e 200 d c =
                    (reply 200 True ''Delete all keys successful'' (Deleted d1 ''txn'') [], c1))) \<and>
            (\<forall>r. out = Return r \<longrightarrow> txn_sweep s e 200 d c = (r, c1) \<and> \<not> Success r)"
      using BCR by (intro allI impI)
    show "sorted_wrt (<) (map fst (txnkv b)) \<and> plan b = [] \<longrightarrow>
            (\<exists>b'. handleDeleteAllKVs ''txn'' g b =
                    (reply 200 True ''Delete all keys successful''
                       (Deleted (length (filter managed (txnkv b))) ''txn'') [], b') \<and>
                  txnkv b' = filter (\<lambda>p. \<not> managed p) (txnkv b) \<and>
                  next_tid b' = next_tid b + length (filter managed (txnkv b)) div 200 + 1)"
      using D by (intro impI) (elim conjE)
  qed
qed

text \<open>C7 on a store of three pairs: one transaction, three deletions, the store empty.\<close>

theorem deleteAll_txn_chunks_witness:
  "\<exists>b'. handleDeleteAllKVs ''txn'' g_up b_three =
          (reply 200 True ''Delete all keys successful'' (Deleted 3 ''txn'') [], b') \<and>
        txnkv b' = [] \<and> next_tid b' = 1 \<and> length (membuf b' 0) \<le> 200"
proof -
  have c: "txnClient g_up \<noteq> None" by (simp add: g_up_def)
  have o: "sorted_wrt (<) (map fst (txnkv b_three)) \<and> plan b_three = []"
    by (simp add: b_three_def b_empty_def)
  have m: "filter managed (txnkv b_three) = txnkv b_three" "length (txnkv b_three) = 3"
    "next_tid b_three = 0"
    by (simp_all add: b_three_def b_empty_def managed_def in_range_def prefixedRange_def)
  note T = deleteAll_txn_chunks[OF c, of b_three]
  note TA = T[THEN conjunct2, THEN conjunct1]
  note TD = T[THEN conjunct2, THEN conjunct2, THEN conjunct2, THEN mp, OF o]
  from TD obtain b' where
    r: "handleDeleteAllKVs ''txn'' g_up b_three =
          (reply 200 True ''Delete all keys successful''
             (Deleted (length (filter managed (txnkv b_three))) ''txn'') [], b')"
    and s: "txnkv b' = filter (\<lambda>p. \<not> managed p) (txnkv b_three)"
    and n: "next_tid b' = next_tid b_three + length (filter managed (txnkv b_three)) div 200 + 1"
    by blast
  have e: "filter (\<lambda>p. \<not> managed p) (txnkv b_three) = []"
    using m(1) by (metis filter_False filter_id_conv)
  have n1: "next_tid b' = 1" using n m by simp
  have "next_tid b_three \<le> 0 \<and> 0 < next_tid (snd (handleDeleteAllKVs ''txn'' g_up b_three))"
    using r n1 m(3) by simp
  with TA have "length (membuf (snd (handleDeleteAllKVs ''txn'' g_up b_three)) 0) \<le> 200" by blast
  then have "length (membuf b' 0) \<le> 200" using r by simp
  with r s e n1 m show ?thesis by (intro exI[of _ b']) simp
qed

end
